theory Spec2Isabelle
  imports Main "HOL-Library.Sublist" "HOL-Library.Char_ord" "HOL-Library.List_Lexorder"
    "HOL-Library.Product_Lexorder"
begin

section \<open>Python values, exceptions and text\<close>

text \<open>
  The fields of a comic and the cells of a table row are dynamically typed.  The sqlite3
  module maps NULL to None, INTEGER to int and TEXT to str, so one type serves both the
  Python objects and the stored cells.  Text is a list of bytes.
\<close>

datatype pyval = PyNone | PyInt int | PyStr string

text \<open>The exceptions that the modelled code can raise, by their Python class.\<close>

datatype error =
    IndexError | TypeError | ValueError | OverflowError
  | URLError | ParserError | OSError | IntegrityError

definition digit_char :: "nat \<Rightarrow> char" where
  "digit_char n = char_of (48 + n)"

fun str_nat :: "nat \<Rightarrow> string" where
  "str_nat n = (if n < 10 then [digit_char n] else str_nat (n div 10) @ [digit_char (n mod 10)])"

declare str_nat.simps [simp del]

definition str_int :: "int \<Rightarrow> string" where
  "str_int i = (if i < 0 then CHR ''-'' # str_nat (nat (- i)) else str_nat (nat i))"

text \<open>\<^verbatim>\<open>str(x)\<close> on a value.\<close>

fun str :: "pyval \<Rightarrow> string" where
  "str PyNone = ''None''"
| "str (PyInt i) = str_int i"
| "str (PyStr s) = s"

text \<open>Truth value of an object, as \<^verbatim>\<open>if x:\<close> tests it.\<close>

fun truthy :: "pyval \<Rightarrow> bool" where
  "truthy PyNone = False"
| "truthy (PyInt i) = (i \<noteq> 0)"
| "truthy (PyStr s) = (s \<noteq> [])"

text \<open>\<^verbatim>\<open>"%0wd" % n\<close> for a non-negative number: padded with zeros to at least w digits.\<close>

definition zero_pad :: "nat \<Rightarrow> int \<Rightarrow> string" where
  "zero_pad w n = replicate (w - length (str_int n)) CHR ''0'' @ str_int n"

definition is_digit :: "char \<Rightarrow> bool" where
  "is_digit c = (48 \<le> (of_char c :: nat) \<and> (of_char c :: nat) \<le> 57)"

definition digit_val :: "char \<Rightarrow> int" where
  "digit_val c = int (of_char c) - 48"

text \<open>The number written by a string of decimal digits.\<close>

definition digits_val :: "string \<Rightarrow> int" where
  "digits_val s = foldl (\<lambda>a c. 10 * a + digit_val c) 0 s"

section \<open>Dates\<close>

text \<open>
  A \<^verbatim>\<open>datetime.date\<close> is modelled by its proleptic Gregorian ordinal, the number that
  \<^verbatim>\<open>toordinal()\<close> returns: day 1 is 0001-01-01 and the last date, 9999-12-31, is day
  3652059.  Date arithmetic is then arithmetic on ordinals, as in the datetime module,
  and the calendar appears only where a date is written or read as text.  The calendar
  functions follow the datetime module.
\<close>

type_synonym date = int

definition MINYEAR :: int where "MINYEAR = 1"
definition MAXYEAR :: int where "MAXYEAR = 9999"
definition MAXORDINAL :: int where "MAXORDINAL = 3652059"

definition valid_date :: "date \<Rightarrow> bool" where
  "valid_date n = (1 \<le> n \<and> n \<le> MAXORDINAL)"

definition is_leap :: "int \<Rightarrow> bool" where
  "is_leap year = (year mod 4 = 0 \<and> (year mod 100 \<noteq> 0 \<or> year mod 400 = 0))"

definition days_before_year :: "int \<Rightarrow> int" where
  "days_before_year year =
     (let y = year - 1 in y * 365 + y div 4 - y div 100 + y div 400)"

definition DAYS_IN_MONTH :: "int list" where
  "DAYS_IN_MONTH = [-1, 31, 28, 31, 30, 31, 30, 31, 31, 30, 31, 30, 31]"

definition DAYS_BEFORE_MONTH :: "int list" where
  "DAYS_BEFORE_MONTH = [-1, 0, 31, 59, 90, 120, 151, 181, 212, 243, 273, 304, 334]"

definition days_in_month :: "int \<Rightarrow> int \<Rightarrow> int" where
  "days_in_month year month =
     (if month = 2 \<and> is_leap year then 29 else DAYS_IN_MONTH ! nat month)"

definition days_before_month :: "int \<Rightarrow> int \<Rightarrow> int" where
  "days_before_month year month =
     DAYS_BEFORE_MONTH ! nat month + (if month > 2 \<and> is_leap year then 1 else 0)"

definition ymd2ord :: "int \<Rightarrow> int \<Rightarrow> int \<Rightarrow> date" where
  "ymd2ord year month day = days_before_year year + days_before_month year month + day"

text \<open>The check of the \<^verbatim>\<open>date(year, month, day)\<close> constructor.\<close>

definition valid_ymd :: "int \<Rightarrow> int \<Rightarrow> int \<Rightarrow> bool" where
  "valid_ymd year month day =
     (MINYEAR \<le> year \<and> year \<le> MAXYEAR \<and> 1 \<le> month \<and> month \<le> 12 \<and>
      1 \<le> day \<and> day \<le> days_in_month year month)"

definition DI400Y :: int where "DI400Y = 146097"
definition DI100Y :: int where "DI100Y = 36524"
definition DI4Y :: int where "DI4Y = 1461"

text \<open>
  The month and the day of the day number \<open>n\<close> of a year, counted from zero: an estimate of
  the month that is exact or one too large, corrected by the days that precede it.
\<close>

definition ord2md :: "bool \<Rightarrow> int \<Rightarrow> int \<times> int" where
  "ord2md leapyear n =
     (let month = (n + 50) div 32;
          preceding = DAYS_BEFORE_MONTH ! nat month + (if month > 2 \<and> leapyear then 1 else 0)
      in if preceding > n
         then let month = month - 1;
                  preceding = preceding -
                    (DAYS_IN_MONTH ! nat month + (if month = 2 \<and> leapyear then 1 else 0))
              in (month, n - preceding + 1)
         else (month, n - preceding + 1))"

text \<open>
  Year, month and day of an ordinal: the count of whole cycles of 400, 100, 4 and 1 years
  before the day gives the year; the last day of a cycle of 4 or of 400 years is the 31st
  of December of a leap year.
\<close>

definition ord2ymd :: "date \<Rightarrow> int \<times> int \<times> int" where
  "ord2ymd n0 =
     (let n = n0 - 1;
          n400 = n div DI400Y; n = n mod DI400Y;
          year = n400 * 400 + 1;
          n100 = n div DI100Y; n = n mod DI100Y;
          n4 = n div DI4Y; n = n mod DI4Y;
          n1 = n div 365; n = n mod 365;
          year = year + n100 * 100 + n4 * 4 + n1
      in if n1 = 4 \<or> n100 = 4 then (year - 1, 12, 31)
         else
           let leapyear = (n1 = 3 \<and> (n4 \<noteq> 24 \<or> n100 = 3))
           in case ord2md leapyear n of (month, day) \<Rightarrow> (year, month, day))"

text \<open>\<^verbatim>\<open>d.isoformat()\<close>, which is also \<^verbatim>\<open>str(d)\<close>: the text YYYY-MM-DD.\<close>

definition isoformat :: "date \<Rightarrow> string" where
  "isoformat d =
     (case ord2ymd d of (y, m, dd) \<Rightarrow> zero_pad 4 y @ ''-'' @ zero_pad 2 m @ ''-'' @ zero_pad 2 dd)"

text \<open>
  \<^verbatim>\<open>date.fromisoformat\<close> of the Python versions the script asks for (3.7): exactly ten
  characters, four digits, a hyphen, two digits, a hyphen, two digits, and the three
  numbers must name a day of the calendar.  An argument that is not a string is a
  TypeError.
\<close>

definition parse_isoformat_date :: "string \<Rightarrow> error + date" where
  "parse_isoformat_date s =
     (case s of
        [y1, y2, y3, y4, s1, m1, m2, s2, d1, d2] \<Rightarrow>
          if list_all is_digit [y1, y2, y3, y4, m1, m2, d1, d2] \<and> s1 = CHR ''-'' \<and> s2 = CHR ''-''
          then let year = digits_val [y1, y2, y3, y4];
                   month = digits_val [m1, m2];
                   day = digits_val [d1, d2]
               in if valid_ymd year month day then Inr (ymd2ord year month day)
                  else Inl ValueError
          else Inl ValueError
      | _ \<Rightarrow> Inl ValueError)"

fun fromisoformat :: "pyval \<Rightarrow> error + date" where
  "fromisoformat (PyStr s) = parse_isoformat_date s"
| "fromisoformat _ = Inl TypeError"

text \<open>\<^verbatim>\<open>d + timedelta(days=n)\<close>: a result outside the calendar is an OverflowError.\<close>

definition date_add :: "date \<Rightarrow> int \<Rightarrow> error + date" where
  "date_add d n = (if valid_date (d + n) then Inr (d + n) else Inl OverflowError)"

text \<open>
  The generator \<^verbatim>\<open>_daterange\<close>, as the list of the dates it yields: counting is
  inclusive, and \<^verbatim>\<open>range\<close> of a number below one is empty.
\<close>

definition daterange :: "date \<Rightarrow> date \<Rightarrow> date list" where
  "daterange start_date end_date =
     map (\<lambda>n. start_date + int n) [0 ..< nat ((end_date - start_date) + 1)]"

section \<open>Timestamps\<close>

text \<open>
  A naive \<^verbatim>\<open>datetime\<close>.  \<^verbatim>\<open>datetime.fromisoformat\<close> reads the date from the first ten
  characters, skips one separator character, and reads the time as HH, HH:MM, HH:MM:SS or
  HH:MM:SS.fff with three or six fraction digits.  A time with a UTC offset, which the
  table's default never writes, is not modelled: it is a ValueError here.
\<close>

record datetime =
  dt_date :: date
  hour :: int
  minute :: int
  second :: int
  microsecond :: int

definition parse_isoformat_time :: "string \<Rightarrow> error + int \<times> int \<times> int \<times> int" where
  "parse_isoformat_time s =
     (let n = length s;
          hh = take 2 s; mm = take 2 (drop 3 s); ss = take 2 (drop 6 s); ff = drop 9 s
      in if (n = 2 \<or> n = 5 \<or> n = 8 \<or> n = 12 \<or> n = 15)
            \<and> list_all is_digit (hh @ mm @ ss @ ff)
            \<and> (n < 5 \<or> s ! 2 = CHR '':'') \<and> (n < 8 \<or> s ! 5 = CHR '':'')
            \<and> (n < 12 \<or> s ! 8 = CHR ''.'')
         then let h = digits_val hh; m = digits_val mm; sec = digits_val ss;
                  us = digits_val ff * (if n = 12 then 1000 else 1)
              in if h < 24 \<and> m < 60 \<and> sec < 60 then Inr (h, m, sec, us) else Inl ValueError
         else Inl ValueError)"

fun datetime_fromisoformat :: "pyval \<Rightarrow> error + datetime" where
  "datetime_fromisoformat (PyStr s) =
     (case parse_isoformat_date (take 10 s) of
        Inl e \<Rightarrow> Inl e
      | Inr d \<Rightarrow>
          if length s > 10
          then (case parse_isoformat_time (drop 11 s) of
                  Inl e \<Rightarrow> Inl e
                | Inr (h, m, sec, us) \<Rightarrow>
                    Inr \<lparr>dt_date = d, hour = h, minute = m, second = sec, microsecond = us\<rparr>)
          else Inr \<lparr>dt_date = d, hour = 0, minute = 0, second = 0, microsecond = 0\<rparr>)"
| "datetime_fromisoformat _ = Inl TypeError"

text \<open>\<^verbatim>\<open>datetime.combine(d, datetime.min.time())\<close>: midnight of the day.\<close>

definition combine_min_time :: "date \<Rightarrow> datetime" where
  "combine_min_time d = \<lparr>dt_date = d, hour = 0, minute = 0, second = 0, microsecond = 0\<rparr>"

section \<open>The table\<close>

text \<open>
  One row of the table \<^verbatim>\<open>dilbert\<close>.  The key \<^verbatim>\<open>id\<close> is always an integer; the other
  cells hold whatever value was stored.
\<close>

record row =
  col_id :: int
  col_pubdate :: pyval
  col_url :: pyval
  col_title :: pyval
  col_filename :: pyval
  col_width :: pyval
  col_height :: pyval
  col_updated :: pyval

text \<open>
  The table, and the largest key that AUTOINCREMENT has handed out so far.
  \<^verbatim>\<open>open_db\<close> creates the table when it is missing: a new database is \<open>empty_db\<close>.
\<close>

record store =
  rows :: "row list"
  seq :: int

definition empty_db :: store where
  "empty_db = \<lparr>rows = [], seq = 0\<rparr>"

definition is_int_literal :: "string \<Rightarrow> bool" where
  "is_int_literal s =
     (case s of
        [] \<Rightarrow> False
      | c # cs \<Rightarrow> if c = CHR ''-'' \<or> c = CHR ''+'' then cs \<noteq> [] \<and> list_all is_digit cs
                  else list_all is_digit (c # cs))"

definition int_literal :: "string \<Rightarrow> int" where
  "int_literal s =
     (case s of
        [] \<Rightarrow> 0
      | c # cs \<Rightarrow> if c = CHR ''-'' then - digits_val cs
                  else if c = CHR ''+'' then digits_val cs else digits_val (c # cs))"

text \<open>
  What a column of NUMERIC or INTEGER affinity (the declared types DATE and INT) does
  with a text: a text that is an integer literal is stored as that integer, any other text
  is stored as it is.  Texts that SQLite reads as a REAL literal are left as text in this
  model; the program writes none.
\<close>

definition numeric_affinity :: "string \<Rightarrow> pyval" where
  "numeric_affinity s = (if is_int_literal s then PyInt (int_literal s) else PyStr s)"

text \<open>
  The INSERT statement of \<^verbatim>\<open>write_comic_to_db\<close> with its six text parameters, and the
  commit.  \<open>now\<close> is the text that the DEFAULT of the column \<^verbatim>\<open>updated\<close> evaluates to.  The
  column \<^verbatim>\<open>filename\<close> is UNIQUE: a second row with the same filename is refused with
  \<^verbatim>\<open>sqlite3.IntegrityError\<close> and the table stays as it was.  A parameter list of another
  length is refused as well.
\<close>

definition next_id :: "store \<Rightarrow> int" where
  "next_id s = max (seq s) (foldr max (map col_id (rows s)) 0) + 1"

definition insert_dilbert :: "string \<Rightarrow> string list \<Rightarrow> store \<Rightarrow> error + store" where
  "insert_dilbert now params s =
     (case params of
        [p, u, t, f, w, h] \<Rightarrow>
          if PyStr f \<in> set (map col_filename (rows s)) then Inl IntegrityError
          else Inr \<lparr>rows = rows s @
                      [\<lparr>col_id = next_id s, col_pubdate = numeric_affinity p, col_url = PyStr u,
                        col_title = PyStr t, col_filename = PyStr f,
                        col_width = numeric_affinity w, col_height = numeric_affinity h,
                        col_updated = PyStr now\<rparr>],
                    seq = next_id s\<rparr>
      | _ \<Rightarrow> Inl ValueError)"

text \<open>
  The order of values in ORDER BY: NULL first, then numbers, then text, and text by its
  bytes.  The key puts a value into a linear order that agrees with it.
\<close>

fun sql_key :: "pyval \<Rightarrow> nat \<times> int \<times> string" where
  "sql_key PyNone = (0, 0, [])"
| "sql_key (PyInt i) = (1, i, [])"
| "sql_key (PyStr s) = (2, 0, s)"

text \<open>
  \<^verbatim>\<open>select * from dilbert order by pubdate desc\<close>.  SQLite leaves the order of rows with
  equal pubdate open; the model fixes one.
\<close>

definition order_by_pubdate_desc :: "store \<Rightarrow> row list" where
  "order_by_pubdate_desc s = rev (sort_key (\<lambda>r. sql_key (col_pubdate r)) (rows s))"

text \<open>LIMIT n: a negative n is no limit.\<close>

definition sql_limit :: "int \<Rightarrow> 'a list \<Rightarrow> 'a list" where
  "sql_limit n xs = (if n < 0 then xs else take (nat n) xs)"

section \<open>DilbertComic\<close>

record DilbertComic =
  id' :: pyval
  pubdate :: date
  url :: pyval
  filename :: pyval
  title :: pyval
  updated :: "datetime option"
  width :: pyval
  height :: pyval

text \<open>The end of \<^verbatim>\<open>__init__\<close>: an empty title becomes a dash.\<close>

definition fix_empty_title :: "DilbertComic \<Rightarrow> DilbertComic" where
  "fix_empty_title c = (if title c = PyStr [] then c\<lparr>title := PyStr ''-''\<rparr> else c)"

text \<open>
  \<^verbatim>\<open>DilbertComic(row=row)\<close>: a Row is always true, so the fields come from the row.
  Reading the date or the timestamp can raise.
\<close>

definition DilbertComic_row :: "row \<Rightarrow> error + DilbertComic" where
  "DilbertComic_row r =
     (case fromisoformat (col_pubdate r) of
        Inl e \<Rightarrow> Inl e
      | Inr d \<Rightarrow>
          (case datetime_fromisoformat (col_updated r) of
             Inl e \<Rightarrow> Inl e
           | Inr u \<Rightarrow>
               Inr (fix_empty_title
                 \<lparr>id' = PyInt (col_id r), pubdate = d, url = col_url r,
                  filename = col_filename r, title = col_title r, updated = Some u,
                  width = col_width r, height = col_height r\<rparr>)))"

text \<open>\<^verbatim>\<open>DilbertComic(comic_id=.., pubdate=.., ...)\<close>: no row, the fields come from the arguments.\<close>

definition DilbertComic_fields ::
  "pyval \<Rightarrow> date \<Rightarrow> pyval \<Rightarrow> pyval \<Rightarrow> pyval \<Rightarrow> datetime option \<Rightarrow> pyval \<Rightarrow> pyval \<Rightarrow> DilbertComic" where
  "DilbertComic_fields comic_id pd u fn t upd w h =
     fix_empty_title
       \<lparr>id' = comic_id, pubdate = pd, url = u, filename = fn, title = t, updated = upd,
        width = w, height = h\<rparr>"

text \<open>\<^verbatim>\<open>str(comic[k])\<close> for the keys that \<^verbatim>\<open>write_comic_to_db\<close> reads.\<close>

definition getitem_str :: "DilbertComic \<Rightarrow> string \<Rightarrow> string" where
  "getitem_str c k =
     (if k = ''pubdate'' then isoformat (pubdate c)
      else if k = ''url'' then str (url c)
      else if k = ''title'' then str (title c)
      else if k = ''filename'' then str (filename c)
      else if k = ''width'' then str (width c)
      else if k = ''height'' then str (height c)
      else str (id' c))"

definition tag :: "DilbertComic \<Rightarrow> string \<Rightarrow> string" where
  \<open>tag c baseurl =
     (let w = (if truthy (width c) then ''width="'' @ str (width c) @ ''"'' else []);
          h = (if truthy (height c) then ''height="'' @ str (height c) @ ''"'' else []);
          u = baseurl @ ''/'' @ str (filename c)
      in ''<img src="'' @ u @ ''" alt="comic for '' @ isoformat (pubdate c) @ ''" '' @ w
           @ '' '' @ h @ ''/>'')\<close>

section \<open>The day's page\<close>

text \<open>
  A parsed document is the list of its elements in document order; an element has its tag
  name and its attributes.  \<^verbatim>\<open>el.get(k)\<close> is None for a missing attribute.
\<close>

record element =
  tag_name :: string
  attrs :: "(string \<times> string) list"

definition get :: "element \<Rightarrow> string \<Rightarrow> pyval" where
  "get el k = (case map_of (attrs el) k of None \<Rightarrow> PyNone | Some v \<Rightarrow> PyStr v)"

text \<open>The white space of XPath: space, tab, line feed, carriage return.\<close>

definition xml_space :: "char \<Rightarrow> bool" where
  "xml_space c = (c = CHR '' '' \<or> c = CHR 0x09 \<or> c = CHR 0x0A \<or> c = CHR 0x0D)"

text \<open>The maximal runs of characters that are not white space, \<open>cur\<close> being the run read so far.\<close>

fun tokens :: "string \<Rightarrow> string \<Rightarrow> string list" where
  "tokens cur [] = (if cur = [] then [] else [cur])"
| "tokens cur (c # cs) =
     (if xml_space c then (if cur = [] then tokens [] cs else cur # tokens [] cs)
      else tokens (cur @ [c]) cs)"

fun join_space :: "string list \<Rightarrow> string" where
  "join_space [] = []"
| "join_space [t] = t"
| "join_space (t # ts) = t @ '' '' @ join_space ts"

text \<open>
  XPath \<^verbatim>\<open>normalize-space\<close>: leading and trailing white space goes, and each inner run of
  white space becomes one space.
\<close>

definition normalize_space :: "string \<Rightarrow> string" where
  "normalize_space s = join_space (tokens [] s)"

text \<open>XPath \<^verbatim>\<open>contains(s, t)\<close>: t occurs in s.\<close>

fun contains :: "string \<Rightarrow> string \<Rightarrow> bool" where
  "contains [] t = (t = [])"
| "contains (c # cs) t = (prefix t (c # cs) \<or> contains cs t)"

text \<open>
  The predicate of the XPath expression of \<^verbatim>\<open>find_comic_by_pubdate\<close>:
  \<^verbatim>\<open>//img[@class and contains(concat(' ', normalize-space(@class), ' '), ' img-comic ')]\<close>.
\<close>

definition is_img_comic :: "element \<Rightarrow> bool" where
  "is_img_comic el =
     (tag_name el = ''img'' \<and>
      (case map_of (attrs el) ''class'' of
         None \<Rightarrow> False
       | Some c \<Rightarrow> contains ('' '' @ normalize_space c @ '' '') '' img-comic ''))"

definition xpath_img_comic :: "element list \<Rightarrow> element list" where
  "xpath_img_comic html = filter is_img_comic html"

text \<open>
  \<^verbatim>\<open>re.sub(' - .*$', '', alt)\<close>.  The dot does not match a line feed and the dollar matches
  at the end of the text or before a line feed that ends it, so the pattern matches at the
  first \<^verbatim>\<open>" - "\<close> whose rest has no line feed except a last one; the match is removed and a
  last line feed stays.  An \<^verbatim>\<open>alt\<close> that is not a string is a TypeError.
\<close>

definition dot_star_dollar :: "string \<Rightarrow> bool" where
  "dot_star_dollar t =
     (CHR 0x0A \<notin> set t \<or> (t \<noteq> [] \<and> last t = CHR 0x0A \<and> CHR 0x0A \<notin> set (butlast t)))"

fun sub_dash_suffix :: "string \<Rightarrow> string" where
  "sub_dash_suffix [] = []"
| "sub_dash_suffix (c # cs) =
     (if prefix '' - '' (c # cs) \<and> dot_star_dollar (drop 3 (c # cs))
      then (if last (c # cs) = CHR 0x0A then [CHR 0x0A] else [])
      else c # sub_dash_suffix cs)"

fun re_sub_dash_suffix :: "pyval \<Rightarrow> error + pyval" where
  "re_sub_dash_suffix (PyStr s) = Inr (PyStr (sub_dash_suffix s))"
| "re_sub_dash_suffix _ = Inl TypeError"

section \<open>The world outside and the state of a run\<close>

text \<open>
  What \<^verbatim>\<open>urlopen\<close> returns: an HTTP response with its status and body, or, for a URL that
  is not HTTP, an \<^verbatim>\<open>addinfourl\<close> handle.
\<close>

datatype response = HTTPResponse nat string | Addinfourl string

fun read :: "response \<Rightarrow> string" where
  "read (HTTPResponse status body) = body"
| "read (Addinfourl body) = body"

text \<open>
  The collaborators of the program: the origin server as \<^verbatim>\<open>urlopen\<close> sees it, the HTML
  parser of lxml (the elements of the document for a body, or its error), whether a file
  can be opened for writing, and the clock of the database: the text that the DEFAULT of
  \<^verbatim>\<open>updated\<close> gives to the row inserted for a date.
\<close>

record env =
  urlopen :: "string \<Rightarrow> error + response"
  document_fromstring :: "string \<Rightarrow> error + element list"
  can_open_wb :: "string \<Rightarrow> bool"
  strftime_now :: "date \<Rightarrow> string"

text \<open>What a run leaves behind on the network and on the processor, in order.\<close>

datatype event = Request string | Sleep

text \<open>The database, the files written, and the trace of requests and pauses.\<close>

record state =
  db :: store
  files :: "string \<Rightarrow> string option"
  trace :: "event list"

section \<open>Dilbert\<close>

text \<open>
  A call returns its result or the exception raised, and the state it leaves.
  \<^verbatim>\<open>fetch_url\<close>: a URL that is not a string is refused by \<^verbatim>\<open>Request\<close> with a ValueError
  before anything is sent.
\<close>

fun fetch_url :: "env \<Rightarrow> pyval \<Rightarrow> state \<Rightarrow> (error + response) \<times> state" where
  "fetch_url env (PyStr u) st =
     (let st' = st\<lparr>trace := trace st @ [Request u]\<rparr>
      in case urlopen env u of
           Inl e \<Rightarrow> (Inl e, st')
         | Inr (Addinfourl b) \<Rightarrow> (Inl URLError, st')
         | Inr (HTTPResponse status b) \<Rightarrow> (Inr (HTTPResponse status b), st'))"
| "fetch_url env _ st = (Inl ValueError, st)"

fun latest_loop :: "row list \<Rightarrow> date option \<Rightarrow> error + date option" where
  "latest_loop [] latest = Inr latest"
| "latest_loop (r # rs) latest =
     (case fromisoformat (col_pubdate r) of
        Inl e \<Rightarrow> Inl e
      | Inr d \<Rightarrow> latest_loop rs (Some d))"

definition latest_date_in_db :: "store \<Rightarrow> error + date option" where
  "latest_date_in_db s = latest_loop (sql_limit 1 (order_by_pubdate_desc s)) None"

fun comics_loop :: "row list \<Rightarrow> DilbertComic list \<Rightarrow> error + DilbertComic list" where
  "comics_loop [] cs = Inr cs"
| "comics_loop (r # rs) cs =
     (case DilbertComic_row r of
        Inl e \<Rightarrow> Inl e
      | Inr c \<Rightarrow> comics_loop rs (cs @ [c]))"

definition comics :: "int \<Rightarrow> store \<Rightarrow> error + DilbertComic list" where
  "comics num s = comics_loop (sql_limit num (order_by_pubdate_desc s)) []"

definition strip_url :: "date \<Rightarrow> string" where
  "strip_url d = ''http://dilbert.com/strip/'' @ isoformat d"

definition find_comic_by_pubdate ::
  "env \<Rightarrow> date \<Rightarrow> state \<Rightarrow> (error + DilbertComic) \<times> state" where
  "find_comic_by_pubdate env pd st =
     (case fetch_url env (PyStr (strip_url pd)) st of
        (Inl e, st') \<Rightarrow> (Inl e, st')
      | (Inr res, st') \<Rightarrow>
          (case document_fromstring env (read res) of
             Inl e \<Rightarrow> (Inl e, st')
           | Inr html \<Rightarrow>
               (case xpath_img_comic html of
                  [] \<Rightarrow> (Inl IndexError, st')
                | el # _ \<Rightarrow>
                    (case re_sub_dash_suffix (get el ''alt'') of
                       Inl e \<Rightarrow> (Inl e, st')
                     | Inr t \<Rightarrow>
                         (Inr (DilbertComic_fields PyNone pd (get el ''src'')
                                 (PyStr (isoformat pd @ ''.gif'')) t None
                                 (get el ''width'') (get el ''height'')), st')))))"

definition download_comic :: "env \<Rightarrow> pyval \<Rightarrow> pyval \<Rightarrow> state \<Rightarrow> (error + unit) \<times> state" where
  "download_comic env fn u st =
     (let filename_full = ''cartoons/'' @ str fn
      in case fetch_url env u st of
           (Inl e, st') \<Rightarrow> (Inl e, st')
         | (Inr res, st') \<Rightarrow>
             if can_open_wb env filename_full
             then (Inr (), st'\<lparr>files := (files st')(filename_full \<mapsto> read res)\<rparr>)
             else (Inl OSError, st'))"

definition write_comic_to_db :: "env \<Rightarrow> DilbertComic \<Rightarrow> state \<Rightarrow> (error + unit) \<times> state" where
  "write_comic_to_db env comic st =
     (case insert_dilbert (strftime_now env (pubdate comic))
             (map (getitem_str comic)
                [''pubdate'', ''url'', ''title'', ''filename'', ''width'', ''height''])
             (db st) of
        Inl e \<Rightarrow> (Inl e, st)
      | Inr s \<Rightarrow> (Inr (), st\<lparr>db := s\<rparr>))"

definition update_comic_by_pubdate :: "env \<Rightarrow> date \<Rightarrow> state \<Rightarrow> (error + unit) \<times> state" where
  "update_comic_by_pubdate env pd st =
     (case find_comic_by_pubdate env pd st of
        (Inl e, st1) \<Rightarrow> (Inl e, st1)
      | (Inr comic, st1) \<Rightarrow>
          (case download_comic env (filename comic) (url comic) st1 of
             (Inl e, st2) \<Rightarrow> (Inl e, st2)
           | (Inr _, st2) \<Rightarrow> write_comic_to_db env comic st2))"

text \<open>The loop of \<^verbatim>\<open>update\<close> over the dates of the range, with the pause after each date.\<close>

fun update_loop :: "env \<Rightarrow> date list \<Rightarrow> state \<Rightarrow> (error + unit) \<times> state" where
  "update_loop env [] st = (Inr (), st)"
| "update_loop env (pd # pds) st =
     (case update_comic_by_pubdate env pd st of
        (Inl e, st') \<Rightarrow> (Inl e, st')
      | (Inr _, st') \<Rightarrow> update_loop env pds (st'\<lparr>trace := trace st' @ [Sleep]\<rparr>))"

text \<open>
  \<^verbatim>\<open>update\<close>, with \<^verbatim>\<open>date.today()\<close> as the argument \<open>today\<close>.  A date is always true, so
  \<^verbatim>\<open>not start\<close> holds exactly when the table gave no date.
\<close>

definition update :: "env \<Rightarrow> date \<Rightarrow> state \<Rightarrow> (error + unit) \<times> state" where
  "update env today st =
     (case latest_date_in_db (db st) of
        Inl e \<Rightarrow> (Inl e, st)
      | Inr latest \<Rightarrow>
          (case (case latest of None \<Rightarrow> date_add today (- 10) | Some d \<Rightarrow> Inr d) of
             Inl e \<Rightarrow> (Inl e, st)
           | Inr start \<Rightarrow>
               (case date_add start 1 of
                  Inl e \<Rightarrow> (Inl e, st)
                | Inr start' \<Rightarrow> update_loop env (daterange start' today) st)))"

section \<open>The feed\<close>

record item =
  item_title :: pyval
  author_name :: string
  link :: string
  updateddate :: "datetime option"
  item_pubdate :: datetime
  description :: string

record feed_doc =
  feed_title :: string
  feed_link :: string
  feed_url :: string
  feed_description :: string
  language :: string
  items :: "item list"

definition add_item :: "string \<Rightarrow> DilbertComic \<Rightarrow> item" where
  "add_item baseurl comic =
     \<lparr>item_title = title comic,
      author_name = ''Scott Adams'',
      link = ''http://dilbert.com/strip/'' @ isoformat (pubdate comic),
      updateddate = updated comic,
      item_pubdate = combine_min_time (pubdate comic),
      description = tag comic baseurl\<rparr>"

definition feed :: "string \<Rightarrow> store \<Rightarrow> error + feed_doc" where
  "feed baseurl s =
     (case comics 10 s of
        Inl e \<Rightarrow> Inl e
      | Inr cs \<Rightarrow>
          Inr \<lparr>feed_title = ''De dagelijke Dilbert'',
               feed_link = ''http://dilbert.com/'',
               feed_url = baseurl @ ''/'' @ ''dilbert.rss'',
               feed_description = ''Daily dilbert in a nice feed'',
               language = ''en'',
               items = map (add_item baseurl) cs\<rparr>)"

section \<open>A sample world\<close>

text \<open>
  A world in which every day has a page with one comic and every image can be fetched and
  saved, and the state of a first run: a new database, no files, nothing requested yet.
\<close>

definition sample_page :: "string \<Rightarrow> element list" where
  "sample_page b =
     [\<lparr>tag_name = ''html'', attrs = []\<rparr>,
      \<lparr>tag_name = ''img'', attrs = [(''class'', ''logo'')]\<rparr>,
      \<lparr>tag_name = ''img'',
       attrs = [(''class'', ''img-responsive img-comic''),
                (''src'', ''http://assets.amuniversal.com/'' @ b),
                (''alt'', ''Budget Meeting - Dilbert by Scott Adams''),
                (''width'', ''900''), (''height'', ''280'')]\<rparr>]"

definition sample_env :: env where
  "sample_env =
     \<lparr>urlopen = (\<lambda>u. Inr (HTTPResponse 200 (drop 25 u))),
      document_fromstring = (\<lambda>b. Inr (sample_page b)),
      can_open_wb = (\<lambda>f. True),
      strftime_now = (\<lambda>d. isoformat d @ '' 06:00:00.000'')\<rparr>"

definition new_state :: state where
  "new_state = \<lparr>db = empty_db, files = Map.empty, trace = []\<rparr>"

definition sunday_draft :: DilbertComic where
  "sunday_draft =
     DilbertComic_fields PyNone 738960 (PyStr ''http://assets.amuniversal.com/x'')
       (PyStr ''2024-03-15.gif'') (PyStr []) None PyNone PyNone"

text \<open>No two rows of the table have the same filename.\<close>

definition unique_filenames :: "store \<Rightarrow> bool" where
  "unique_filenames s = distinct (map col_filename (rows s))"

text \<open>
  The class list of an element: the tokens of its \<^verbatim>\<open>class\<close> attribute that white space
  separates (none when the attribute is missing).
\<close>

definition class_list :: "element \<Rightarrow> string list" where
  "class_list el = (case map_of (attrs el) ''class'' of None \<Rightarrow> [] | Some c \<Rightarrow> tokens [] c)"

text \<open>The comic that the sample world shows for a date.\<close>

definition sample_comic :: "date \<Rightarrow> DilbertComic" where
  "sample_comic pd =
     \<lparr>id' = PyNone, pubdate = pd,
      url = PyStr (''http://assets.amuniversal.com/'' @ isoformat pd),
      filename = PyStr (isoformat pd @ ''.gif''), title = PyStr ''Budget Meeting'',
      updated = None, width = PyStr ''900'', height = PyStr ''280''\<rparr>"

text \<open>The row that the sample world gives to a date, with the key \<open>i\<close>.\<close>

definition sample_row :: "int \<Rightarrow> date \<Rightarrow> row" where
  "sample_row i pd =
     \<lparr>col_id = i, col_pubdate = PyStr (isoformat pd),
      col_url = PyStr (''http://assets.amuniversal.com/'' @ isoformat pd),
      col_title = PyStr ''Budget Meeting'', col_filename = PyStr (isoformat pd @ ''.gif''),
      col_width = PyInt 900, col_height = PyInt 280,
      col_updated = PyStr (isoformat pd @ '' 06:00:00.000'')\<rparr>"

text \<open>
  A world whose pages carry no comic: the marker occurs only as part of a longer class name
  and on an element that has no class list at all.
\<close>

definition blocked_page :: "element list" where
  "blocked_page =
     [\<lparr>tag_name = ''div'', attrs = [(''class'', ''img-comic-container'')]\<rparr>,
      \<lparr>tag_name = ''img'', attrs = [(''class'', ''logo img-comics''), (''src'', ''/logo.png'')]\<rparr>,
      \<lparr>tag_name = ''img'', attrs = [(''id'', ''img-comic'')]\<rparr>]"

definition blocked_env :: env where
  "blocked_env = sample_env\<lparr>document_fromstring := (\<lambda>b. Inr blocked_page)\<rparr>"

text \<open>The requests of a trace that ask the archive for the page of a day.\<close>

definition page_requests :: "event list \<Rightarrow> string list" where
  "page_requests tr = [u. Request u \<leftarrow> tr, prefix ''http://dilbert.com/strip/'' u]"

text \<open>A state whose table holds one comic, that of 2024-03-12.\<close>

definition one_row_state :: state where
  "one_row_state =
     \<lparr>db = \<lparr>rows = [\<lparr>col_id = 1, col_pubdate = PyStr ''2024-03-12'',
                      col_url = PyStr ''http://assets.amuniversal.com/2024-03-12'',
                      col_title = PyStr ''Budget Meeting'',
                      col_filename = PyStr ''2024-03-12.gif'',
                      col_width = PyInt 900, col_height = PyInt 280,
                      col_updated = PyStr ''2024-03-12 06:00:00.000''\<rparr>],
             seq = 1\<rparr>,
      files = Map.empty, trace = []\<rparr>"

text \<open>A row that can be read back as a comic: its date and its timestamp have the form that
  the program and the table's default write.\<close>

definition readable :: "row \<Rightarrow> bool" where
  "readable r = (case DilbertComic_row r of Inl e \<Rightarrow> False | Inr c \<Rightarrow> True)"

text \<open>The table after a first run on 2024-03-15 in the sample world: ten rows, oldest first.\<close>

definition march_db :: store where
  "march_db = \<lparr>rows = map (\<lambda>d. sample_row (d - 738950) d) [738951..738960], seq = 10\<rparr>"

section \<open>Basic facts\<close>

lemma str_nat_not_Nil: "str_nat n \<noteq> []"
  by (subst str_nat.simps) simp

lemma str_int_not_Nil: "str_int i \<noteq> []"
  by (simp add: str_int_def str_nat_not_Nil)

lemma zero_pad_not_Nil: "zero_pad w n \<noteq> []"
  by (simp add: zero_pad_def str_int_not_Nil)

lemma is_int_literal_tl: "is_int_literal (c # cs) \<Longrightarrow> list_all is_digit cs"
  by (auto simp: is_int_literal_def split: if_splits)

lemma hyphen_not_digit: "\<not> is_digit CHR ''-''"
  by (simp add: is_digit_def)

lemma isoformat_not_int_literal: "\<not> is_int_literal (isoformat d)"
proof
  assume lit: "is_int_literal (isoformat d)"
  obtain y m dd where ymd: "ord2ymd d = (y, m, dd)"
    by (cases "ord2ymd d") auto
  obtain c cs where pad: "zero_pad 4 y = c # cs"
    using zero_pad_not_Nil [of 4 y] by (cases "zero_pad 4 y") auto
  have "isoformat d = c # (cs @ ''-'' @ zero_pad 2 m @ ''-'' @ zero_pad 2 dd)"
    by (simp add: isoformat_def ymd pad)
  with lit have "list_all is_digit (cs @ ''-'' @ zero_pad 2 m @ ''-'' @ zero_pad 2 dd)"
    using is_int_literal_tl by metis
  then show False
    by (simp add: hyphen_not_digit)
qed

lemma numeric_affinity_isoformat [simp]: "numeric_affinity (isoformat d) = PyStr (isoformat d)"
  by (simp add: numeric_affinity_def isoformat_not_int_literal)

lemma numeric_affinity_None [simp]: "numeric_affinity ''None'' = PyStr ''None''"
  by (simp add: numeric_affinity_def is_int_literal_def is_digit_def)

lemma numeric_affinity_not_None [simp]: "numeric_affinity s \<noteq> PyNone"
  by (simp add: numeric_affinity_def)

lemma str_not_Nil_iff: "str v = [] \<longleftrightarrow> v = PyStr []"
  by (cases v) (simp_all add: str_int_not_Nil)

lemma title_fix_empty_title: "title (fix_empty_title c) \<noteq> PyStr []"
  by (simp add: fix_empty_title_def)

lemma getitem_str_simps:
  "getitem_str c ''pubdate'' = isoformat (pubdate c)"
  "getitem_str c ''url'' = str (url c)"
  "getitem_str c ''title'' = str (title c)"
  "getitem_str c ''filename'' = str (filename c)"
  "getitem_str c ''width'' = str (width c)"
  "getitem_str c ''height'' = str (height c)"
  by (simp_all add: getitem_str_def)

text \<open>The row that a successful insert of a comic appends.\<close>

lemma write_comic_to_db_Inr:
  assumes "write_comic_to_db env c st = (Inr u, st')"
  shows "PyStr (str (filename c)) \<notin> set (map col_filename (rows (db st)))"
    and "st' = st\<lparr>db := \<lparr>rows = rows (db st) @
            [\<lparr>col_id = next_id (db st), col_pubdate = PyStr (isoformat (pubdate c)),
              col_url = PyStr (str (url c)), col_title = PyStr (str (title c)),
              col_filename = PyStr (str (filename c)),
              col_width = numeric_affinity (str (width c)),
              col_height = numeric_affinity (str (height c)),
              col_updated = PyStr (strftime_now env (pubdate c))\<rparr>],
          seq = next_id (db st)\<rparr>\<rparr>"
  using assms
  by (auto simp: write_comic_to_db_def insert_dilbert_def getitem_str_simps split: if_splits)

lemma write_comic_to_db_Inl:
  assumes "write_comic_to_db env c st = (Inl e, st')"
  shows "st' = st" and "e = IntegrityError"
    and "PyStr (str (filename c)) \<in> set (map col_filename (rows (db st)))"
  using assms
  by (auto simp: write_comic_to_db_def insert_dilbert_def getitem_str_simps split: if_splits)

lemma write_comic_to_db_duplicate:
  assumes "PyStr (str (filename c)) \<in> set (map col_filename (rows (db st)))"
  shows "write_comic_to_db env c st = (Inl IntegrityError, st)"
  using assms
  by (auto simp: write_comic_to_db_def insert_dilbert_def getitem_str_simps)

section \<open>What each call does to the state\<close>

lemma fetch_url_PyStr:
  "fetch_url env (PyStr u) st = (r, st') \<Longrightarrow> st' = st\<lparr>trace := trace st @ [Request u]\<rparr>"
  by (auto simp: Let_def split: sum.splits response.splits)

lemma fetch_url_Inr:
  assumes "fetch_url env v st = (Inr res, st')"
  shows "\<exists>u status body. v = PyStr u \<and> urlopen env u = Inr (HTTPResponse status body)
           \<and> res = HTTPResponse status body \<and> st' = st\<lparr>trace := trace st @ [Request u]\<rparr>"
  using assms by (cases v) (auto simp: Let_def split: sum.splits response.splits)

lemma fetch_url_frame:
  "fetch_url env v st = (r, st') \<Longrightarrow> db st' = db st \<and> files st' = files st"
  by (cases v) (auto simp: Let_def split: sum.splits response.splits)

lemma find_comic_by_pubdate_state:
  "find_comic_by_pubdate env pd st = (r, st') \<Longrightarrow>
     st' = st\<lparr>trace := trace st @ [Request (strip_url pd)]\<rparr>"
  unfolding find_comic_by_pubdate_def
  by (auto simp del: fetch_url.simps split: prod.splits sum.splits list.splits
      dest!: fetch_url_PyStr)

lemma download_comic_db:
  "download_comic env fn u st = (r, st') \<Longrightarrow> db st' = db st"
  unfolding download_comic_def
  by (auto simp: Let_def split: prod.splits sum.splits if_splits dest!: fetch_url_frame)

lemma write_comic_to_db_db:
  "write_comic_to_db env c st = (Inl e, st') \<Longrightarrow> db st' = db st"
  by (drule write_comic_to_db_Inl(1)) simp

lemma update_comic_by_pubdate_Inl_db:
  assumes "update_comic_by_pubdate env pd st = (Inl e, st')"
  shows "db st' = db st"
  using assms unfolding update_comic_by_pubdate_def
  by (auto split: prod.splits sum.splits
      dest!: find_comic_by_pubdate_state download_comic_db write_comic_to_db_db)

lemma update_comic_by_pubdate_Inr:
  assumes "update_comic_by_pubdate env pd st = (Inr u, st')"
  shows "\<exists>comic st1 st2. find_comic_by_pubdate env pd st = (Inr comic, st1)
           \<and> download_comic env (filename comic) (url comic) st1 = (Inr (), st2)
           \<and> write_comic_to_db env comic st2 = (Inr (), st')"
  using assms unfolding update_comic_by_pubdate_def
  by (auto split: prod.splits sum.splits)

lemma unique_filenames_write:
  assumes "unique_filenames (db st)"
  shows "unique_filenames (db (snd (write_comic_to_db env c st)))"
proof (cases "write_comic_to_db env c st")
  case (Pair r st')
  show ?thesis
  proof (cases r)
    case (Inl e)
    with Pair assms show ?thesis using write_comic_to_db_db [of env c st e st'] by simp
  next
    case (Inr u)
    with Pair have "write_comic_to_db env c st = (Inr u, st')" by simp
    from write_comic_to_db_Inr [OF this] assms Pair show ?thesis
      by (simp add: unique_filenames_def)
  qed
qed

lemma unique_filenames_update_comic:
  assumes "unique_filenames (db st)"
  shows "unique_filenames (db (snd (update_comic_by_pubdate env pd st)))"
proof (cases "update_comic_by_pubdate env pd st")
  case (Pair r st')
  show ?thesis
  proof (cases r)
    case (Inl e)
    with Pair assms show ?thesis by (simp add: update_comic_by_pubdate_Inl_db)
  next
    case (Inr u)
    with Pair obtain comic st1 st2 where
      f: "find_comic_by_pubdate env pd st = (Inr comic, st1)" and
      d: "download_comic env (filename comic) (url comic) st1 = (Inr (), st2)" and
      w: "write_comic_to_db env comic st2 = (Inr (), st')"
      using update_comic_by_pubdate_Inr by blast
    have "db st2 = db st"
      using find_comic_by_pubdate_state [OF f] download_comic_db [OF d] by simp
    with assms have "unique_filenames (db (snd (write_comic_to_db env comic st2)))"
      by (simp add: unique_filenames_write)
    with w Pair show ?thesis by simp
  qed
qed

lemma unique_filenames_update_loop:
  "unique_filenames (db st) \<Longrightarrow> unique_filenames (db (snd (update_loop env pds st)))"
proof (induction pds arbitrary: st)
  case Nil
  then show ?case by simp
next
  case (Cons pd pds)
  obtain r st' where step: "update_comic_by_pubdate env pd st = (r, st')"
    by (cases "update_comic_by_pubdate env pd st")
  have u: "unique_filenames (db st')"
    using unique_filenames_update_comic [OF Cons.prems, of env pd] step by simp
  show ?case
  proof (cases r)
    case (Inl e)
    with step u show ?thesis by simp
  next
    case (Inr v)
    have "unique_filenames (db (st'\<lparr>trace := trace st' @ [Sleep]\<rparr>))" using u by simp
    from Cons.IH [OF this] step Inr show ?thesis by simp
  qed
qed

lemma unique_filenames_update:
  "unique_filenames (db st) \<Longrightarrow> unique_filenames (db (snd (update env today st)))"
  unfolding update_def
  by (auto split: sum.splits option.splits simp: unique_filenames_update_loop)

section \<open>Claims about the insert\<close>

text \<open>
  Claim C9.  A draft built with the empty string as its title has the title \<^verbatim>\<open>"-"\<close>, and
  when it is written to the table the new row holds \<^verbatim>\<open>"-"\<close> as its title; whatever the
  title given to the draft, the row written for it never holds the empty string.
\<close>

theorem empty_title_stored_as_dash:
  assumes "write_comic_to_db env (DilbertComic_fields cid pd u fn t upd w h) st = (Inr (), st')"
  shows "\<exists>r. rows (db st') = rows (db st) @ [r] \<and> col_title r \<noteq> PyStr []
           \<and> (t = PyStr [] \<longrightarrow>
                title (DilbertComic_fields cid pd u fn t upd w h) = PyStr ''-''
                \<and> col_title r = PyStr ''-'')"
proof -
  let ?c = "DilbertComic_fields cid pd u fn t upd w h"
  have t: "title ?c \<noteq> PyStr []"
    by (simp add: DilbertComic_fields_def title_fix_empty_title)
  then have "str (title ?c) \<noteq> []"
    by (simp add: str_not_Nil_iff)
  moreover have "t = PyStr [] \<Longrightarrow> title ?c = PyStr ''-''"
    by (simp add: DilbertComic_fields_def fix_empty_title_def)
  ultimately show ?thesis
    using write_comic_to_db_Inr(2) [OF assms] by simp
qed

theorem empty_title_stored_as_dash_witness:
  "write_comic_to_db sample_env sunday_draft new_state
     = (Inr (), snd (write_comic_to_db sample_env sunday_draft new_state))
   \<and> (\<exists>r. rows (db (snd (write_comic_to_db sample_env sunday_draft new_state))) = [r]
          \<and> col_title r \<noteq> PyStr [] \<and> col_title r = PyStr ''-'')"
proof -
  have h: "write_comic_to_db sample_env
             (DilbertComic_fields PyNone 738960 (PyStr ''http://assets.amuniversal.com/x'')
                (PyStr ''2024-03-15.gif'') (PyStr []) None PyNone PyNone) new_state
           = (Inr (), snd (write_comic_to_db sample_env sunday_draft new_state))"
    by (simp add: write_comic_to_db_def insert_dilbert_def new_state_def empty_db_def
        sunday_draft_def)
  from empty_title_stored_as_dash [OF h] h show ?thesis
    by (auto simp: sunday_draft_def new_state_def empty_db_def)
qed

text \<open>
  Claim C10.  The insert writes the text of every field of the comic.  For a comic whose
  width, height or title is None the new row holds the text \<^verbatim>\<open>None\<close> in that column, and
  no row written by the insert has a null width, height or title.
\<close>

theorem insert_stringifies_fields:
  assumes "write_comic_to_db env c st = (Inr (), st')"
  shows "\<exists>r. rows (db st') = rows (db st) @ [r]
           \<and> col_pubdate r = PyStr (isoformat (pubdate c))
           \<and> col_url r = PyStr (str (url c))
           \<and> col_title r = PyStr (str (title c))
           \<and> col_filename r = PyStr (str (filename c))
           \<and> col_width r = numeric_affinity (str (width c))
           \<and> col_height r = numeric_affinity (str (height c))
           \<and> col_width r \<noteq> PyNone \<and> col_height r \<noteq> PyNone \<and> col_title r \<noteq> PyNone
           \<and> (width c = PyNone \<longrightarrow> col_width r = PyStr ''None'')
           \<and> (height c = PyNone \<longrightarrow> col_height r = PyStr ''None'')
           \<and> (title c = PyNone \<longrightarrow> col_title r = PyStr ''None'')"
  using write_comic_to_db_Inr(2) [OF assms] by simp

theorem insert_stringifies_fields_witness:
  "write_comic_to_db sample_env (sunday_draft\<lparr>title := PyNone\<rparr>) new_state
     = (Inr (), snd (write_comic_to_db sample_env (sunday_draft\<lparr>title := PyNone\<rparr>) new_state))
   \<and> width (sunday_draft\<lparr>title := PyNone\<rparr>) = PyNone
   \<and> height (sunday_draft\<lparr>title := PyNone\<rparr>) = PyNone
   \<and> title (sunday_draft\<lparr>title := PyNone\<rparr>) = PyNone
   \<and> (\<exists>r. rows (db (snd (write_comic_to_db sample_env (sunday_draft\<lparr>title := PyNone\<rparr>)
                  new_state))) = [r]
          \<and> col_width r = PyStr ''None'' \<and> col_height r = PyStr ''None''
          \<and> col_title r = PyStr ''None'')"
proof -
  let ?c = "sunday_draft\<lparr>title := PyNone\<rparr>"
  have h: "write_comic_to_db sample_env ?c new_state
           = (Inr (), snd (write_comic_to_db sample_env ?c new_state))"
    by (simp add: write_comic_to_db_def insert_dilbert_def new_state_def empty_db_def)
  have f: "width ?c = PyNone" "height ?c = PyNone" "title ?c = PyNone"
    by (simp_all add: sunday_draft_def DilbertComic_fields_def fix_empty_title_def)
  from insert_stringifies_fields [OF h] h f show ?thesis
    by (auto simp: new_state_def empty_db_def)
qed

text \<open>
  Claim C5.  After a comic has been inserted, the insert of a comic with the same filename
  is refused with IntegrityError and leaves the state as it was.  A new database has no
  two rows with the same filename, and neither an insert nor a whole run can produce two.
\<close>

theorem second_insert_same_filename_fails:
  assumes "write_comic_to_db env c1 st = (Inr (), st1)"
    and "str (filename c2) = str (filename c1)"
    and "unique_filenames (db st)"
  shows "write_comic_to_db env2 c2 st1 = (Inl IntegrityError, st1)
       \<and> unique_filenames (db st1)
       \<and> unique_filenames (db (snd (write_comic_to_db env2 c st1)))
       \<and> unique_filenames (db (snd (update env2 today st1)))
       \<and> unique_filenames empty_db"
proof -
  have "PyStr (str (filename c2)) \<in> set (map col_filename (rows (db st1)))"
    using write_comic_to_db_Inr(2) [OF assms(1)] assms(2) by simp
  then have a: "write_comic_to_db env2 c2 st1 = (Inl IntegrityError, st1)"
    by (rule write_comic_to_db_duplicate)
  have u1: "unique_filenames (db st1)"
    using unique_filenames_write [OF assms(3), of env c1] assms(1) by simp
  have b: "unique_filenames (db (snd (write_comic_to_db env2 c st1)))"
    using u1 by (rule unique_filenames_write)
  have c: "unique_filenames (db (snd (update env2 today st1)))"
    using u1 by (rule unique_filenames_update)
  have d: "unique_filenames empty_db"
    by (simp add: unique_filenames_def empty_db_def)
  from a u1 b c d show ?thesis by simp
qed

theorem second_insert_same_filename_fails_witness:
  "write_comic_to_db sample_env sunday_draft new_state
     = (Inr (), snd (write_comic_to_db sample_env sunday_draft new_state))
   \<and> str (filename (sunday_draft\<lparr>title := PyStr ''Again''\<rparr>)) = str (filename sunday_draft)
   \<and> unique_filenames (db new_state)
   \<and> write_comic_to_db sample_env (sunday_draft\<lparr>title := PyStr ''Again''\<rparr>)
         (snd (write_comic_to_db sample_env sunday_draft new_state))
       = (Inl IntegrityError, snd (write_comic_to_db sample_env sunday_draft new_state))"
proof -
  have h: "write_comic_to_db sample_env sunday_draft new_state
           = (Inr (), snd (write_comic_to_db sample_env sunday_draft new_state))"
    by (simp add: write_comic_to_db_def insert_dilbert_def new_state_def empty_db_def)
  have f: "str (filename (sunday_draft\<lparr>title := PyStr ''Again''\<rparr>)) = str (filename sunday_draft)"
    by simp
  have u: "unique_filenames (db new_state)"
    by (simp add: unique_filenames_def new_state_def empty_db_def)
  from second_insert_same_filename_fails [OF h f u] h f u show ?thesis
    by simp
qed

section \<open>The XPath predicate and the class list\<close>

lemma contains_sublist: "contains s t \<longleftrightarrow> sublist t s"
  by (induction s) (simp_all add: sublist_Cons_right)

lemma tokens_no_space:
  "list_all (\<lambda>c. \<not> xml_space c) cur \<Longrightarrow> t \<in> set (tokens cur s)
     \<Longrightarrow> list_all (\<lambda>c. \<not> xml_space c) t"
proof (induction s arbitrary: cur)
  case Nil
  then show ?case by (simp split: if_splits)
next
  case (Cons c cs)
  show ?case
  proof (cases "xml_space c")
    case True
    then have "t = cur \<or> t \<in> set (tokens [] cs)"
      using Cons.prems(2) by (simp split: if_splits)
    then show ?thesis
    proof
      assume "t = cur"
      with Cons.prems(1) show ?thesis by simp
    next
      assume "t \<in> set (tokens [] cs)"
      with Cons.IH [of "[]"] show ?thesis by simp
    qed
  next
    case False
    then have "t \<in> set (tokens (cur @ [c]) cs)"
      using Cons.prems(2) by simp
    moreover have "list_all (\<lambda>c. \<not> xml_space c) (cur @ [c])"
      using False Cons.prems(1) by simp
    ultimately show ?thesis
      using Cons.IH by blast
  qed
qed

lemma join_space_concat:
  "ts \<noteq> [] \<Longrightarrow> join_space ts @ '' '' = concat (map (\<lambda>t. t @ '' '') ts)"
  by (induction ts rule: join_space.induct) simp_all

text \<open>Two texts that agree up to their first space have the same first word.\<close>

lemma first_word_eq:
  assumes "x @ CHR '' '' # y = x' @ CHR '' '' # y'"
    and "CHR '' '' \<notin> set x" and "CHR '' '' \<notin> set x'"
  shows "x = x' \<and> y = y'"
proof -
  have tw: "CHR '' '' \<notin> set z \<Longrightarrow> takeWhile (\<lambda>c. c \<noteq> CHR '' '') (z @ CHR '' '' # w) = z"
    for z w :: string
    by (induction z) auto
  have "x = x'" using tw [OF assms(2), of y] tw [OF assms(3), of y'] assms(1) by simp
  with assms(1) show ?thesis by simp
qed

lemma word_between_spaces:
  assumes "\<forall>t\<in>set ts. CHR '' '' \<notin> set t" and "CHR '' '' \<notin> set m"
    and "CHR '' '' # concat (map (\<lambda>t. t @ '' '') ts) = a @ CHR '' '' # m @ CHR '' '' # b"
  shows "m \<in> set ts"
  using assms
proof (induction ts arbitrary: a)
  case Nil
  then show ?case by (cases a) auto
next
  case (Cons t ts)
  let ?rest = "concat (map (\<lambda>t. t @ '' '') ts)"
  from Cons.prems(3) have eq: "CHR '' '' # t @ CHR '' '' # ?rest = a @ CHR '' '' # m @ CHR '' '' # b"
    by simp
  show ?case
  proof (cases a)
    case Nil
    with eq have "t @ CHR '' '' # ?rest = m @ CHR '' '' # b" by simp
    from first_word_eq [OF this] Cons.prems show ?thesis by simp
  next
    case (Cons c a')
    with eq have eq': "t @ (CHR '' '' # ?rest) = a' @ (CHR '' '' # m @ CHR '' '' # b)" by auto
    from eq' [unfolded append_eq_append_conv2] obtain us where
      "(t = a' @ us \<and> us @ CHR '' '' # ?rest = CHR '' '' # m @ CHR '' '' # b)
       \<or> (t @ us = a' \<and> CHR '' '' # ?rest = us @ CHR '' '' # m @ CHR '' '' # b)"
      by blast
    then show ?thesis
    proof
      assume h: "t = a' @ us \<and> us @ CHR '' '' # ?rest = CHR '' '' # m @ CHR '' '' # b"
      have "CHR '' '' \<notin> set t" using Cons.prems(1) by simp
      with h have "us = []" by (cases us) auto
      with h have "?rest = m @ CHR '' '' # b" by simp
      then have "CHR '' '' # ?rest = [] @ CHR '' '' # m @ CHR '' '' # b" by simp
      from Cons.IH [OF _ Cons.prems(2) this] Cons.prems(1) show ?thesis by simp
    next
      assume h: "t @ us = a' \<and> CHR '' '' # ?rest = us @ CHR '' '' # m @ CHR '' '' # b"
      from Cons.IH [OF _ Cons.prems(2) conjunct2 [OF h]] Cons.prems(1) show ?thesis by simp
    qed
  qed
qed

lemma word_between_spaces_conv:
  assumes "m \<in> set ts"
  shows "\<exists>a b. CHR '' '' # concat (map (\<lambda>t. t @ '' '') ts) = a @ CHR '' '' # m @ CHR '' '' # b"
  using assms
proof (induction ts)
  case Nil
  then show ?case by simp
next
  case (Cons t ts)
  show ?case
  proof (cases "m = t")
    case True
    have "CHR '' '' # concat (map (\<lambda>t. t @ '' '') (t # ts))
          = [] @ CHR '' '' # m @ CHR '' '' # concat (map (\<lambda>t. t @ '' '') ts)"
      using True by simp
    then show ?thesis by blast
  next
    case False
    with Cons obtain a b where
      "CHR '' '' # concat (map (\<lambda>t. t @ '' '') ts) = a @ CHR '' '' # m @ CHR '' '' # b"
      by auto
    then have "CHR '' '' # concat (map (\<lambda>t. t @ '' '') (t # ts))
          = (CHR '' '' # t @ a) @ CHR '' '' # m @ CHR '' '' # b"
      by simp
    then show ?thesis by blast
  qed
qed

text \<open>
  The string test of the XPath expression is the test that the marker class is one of the
  tokens of the class attribute.
\<close>

lemma is_img_comic_class_list:
  "is_img_comic el \<longleftrightarrow> tag_name el = ''img'' \<and> ''img-comic'' \<in> set (class_list el)"
proof (cases "map_of (attrs el) ''class''")
  case None
  then show ?thesis by (simp add: is_img_comic_def class_list_def)
next
  case (Some c)
  let ?ts = "tokens [] c"
  have nosp: "\<forall>t\<in>set ?ts. CHR '' '' \<notin> set t"
  proof
    fix t assume "t \<in> set ?ts"
    from tokens_no_space [OF _ this] have "list_all (\<lambda>c. \<not> xml_space c) t" by simp
    then show "CHR '' '' \<notin> set t"
      by (auto simp: list_all_iff xml_space_def)
  qed
  have "contains ('' '' @ normalize_space c @ '' '') '' img-comic '' \<longleftrightarrow> ''img-comic'' \<in> set ?ts"
  proof (cases "?ts = []")
    case True
    then show ?thesis
      by (simp add: normalize_space_def)
  next
    case False
    have s: "'' '' @ normalize_space c @ '' '' = CHR '' '' # concat (map (\<lambda>t. t @ '' '') ?ts)"
      using join_space_concat [OF False] by (simp add: normalize_space_def)
    show ?thesis
    proof
      assume "contains ('' '' @ normalize_space c @ '' '') '' img-comic ''"
      then obtain a b where
        "CHR '' '' # concat (map (\<lambda>t. t @ '' '') ?ts) = a @ '' img-comic '' @ b"
        unfolding s contains_sublist sublist_def by blast
      then have "CHR '' '' # concat (map (\<lambda>t. t @ '' '') ?ts)
                 = a @ CHR '' '' # ''img-comic'' @ CHR '' '' # b" by simp
      from word_between_spaces [OF nosp _ this] show "''img-comic'' \<in> set ?ts" by simp
    next
      assume "''img-comic'' \<in> set ?ts"
      from word_between_spaces_conv [OF this] obtain a b where
        "CHR '' '' # concat (map (\<lambda>t. t @ '' '') ?ts)
         = a @ CHR '' '' # ''img-comic'' @ CHR '' '' # b" by blast
      then have "CHR '' '' # concat (map (\<lambda>t. t @ '' '') ?ts) = a @ '' img-comic '' @ b"
        by simp
      then show "contains ('' '' @ normalize_space c @ '' '') '' img-comic ''"
        unfolding s contains_sublist sublist_def by blast
    qed
  qed
  with Some show ?thesis by (simp add: is_img_comic_def class_list_def)
qed

section \<open>The loop and the sample world\<close>

lemma update_loop_append:
  "update_loop env (pds1 @ pds2) st =
     (case update_loop env pds1 st of
        (Inl e, s) \<Rightarrow> (Inl e, s)
      | (Inr u, s) \<Rightarrow> update_loop env pds2 s)"
  by (induction pds1 arbitrary: st) (auto split: prod.splits sum.splits)

lemma update_loop_Inl_head:
  "update_comic_by_pubdate env pd st = (Inl e, st') \<Longrightarrow>
     update_loop env (pd # pds) st = (Inl e, st')"
  by simp

lemma sample_xpath:
  "xpath_img_comic (sample_page b) =
     [\<lparr>tag_name = ''img'',
       attrs = [(''class'', ''img-responsive img-comic''),
                (''src'', ''http://assets.amuniversal.com/'' @ b),
                (''alt'', ''Budget Meeting - Dilbert by Scott Adams''),
                (''width'', ''900''), (''height'', ''280'')]\<rparr>]"
  by (simp add: xpath_img_comic_def sample_page_def is_img_comic_class_list class_list_def
      xml_space_def)

lemma sample_title:
  "sub_dash_suffix ''Budget Meeting - Dilbert by Scott Adams'' = ''Budget Meeting''"
  by (simp add: dot_star_dollar_def)

lemma sample_find:
  "find_comic_by_pubdate sample_env pd st =
     (Inr (sample_comic pd), st\<lparr>trace := trace st @ [Request (strip_url pd)]\<rparr>)"
  by (simp add: find_comic_by_pubdate_def sample_env_def sample_xpath sample_title get_def
      strip_url_def sample_comic_def DilbertComic_fields_def fix_empty_title_def
      del: sub_dash_suffix.simps)

lemma sample_download:
  "download_comic sample_env (filename (sample_comic pd)) (url (sample_comic pd)) st =
     (Inr (), st\<lparr>trace := trace st @ [Request (''http://assets.amuniversal.com/'' @ isoformat pd)],
                 files := (files st)(''cartoons/'' @ isoformat pd @ ''.gif'' \<mapsto> drop 25 (''http://assets.amuniversal.com/'' @ isoformat pd))\<rparr>)"
  by (simp add: download_comic_def sample_env_def sample_comic_def)


lemma numeric_affinity_sample:
  "numeric_affinity ''900'' = PyInt 900" "numeric_affinity ''280'' = PyInt 280"
  by (simp_all add: numeric_affinity_def is_int_literal_def int_literal_def is_digit_def
      digits_val_def digit_val_def)

lemma sample_update_comic:
  assumes "PyStr (isoformat pd @ ''.gif'') \<notin> set (map col_filename (rows (db st)))"
  shows "update_comic_by_pubdate sample_env pd st =
     (Inr (), st\<lparr>trace := trace st @ [Request (strip_url pd),
                                          Request (''http://assets.amuniversal.com/'' @ isoformat pd)],
                 files := (files st)(''cartoons/'' @ isoformat pd @ ''.gif''
                            \<mapsto> drop 25 (''http://assets.amuniversal.com/'' @ isoformat pd)),
                 db := \<lparr>rows = rows (db st) @ [sample_row (next_id (db st)) pd],
                        seq = next_id (db st)\<rparr>\<rparr>)"
proof -
  have w: "write_comic_to_db sample_env (sample_comic pd) s =
             (Inr (), s\<lparr>db := \<lparr>rows = rows (db s) @ [sample_row (next_id (db s)) pd],
                                seq = next_id (db s)\<rparr>\<rparr>)"
    if "db s = db st" for s
    using assms that
    by (simp add: write_comic_to_db_def insert_dilbert_def getitem_str_simps sample_row_def
        numeric_affinity_sample sample_comic_def sample_env_def)
  show ?thesis
    unfolding update_comic_by_pubdate_def sample_find
    by (simp add: sample_download w del: fetch_url.simps)
qed

section \<open>Claims about one date of a run\<close>

lemma find_comic_by_pubdate_Inr:
  assumes "find_comic_by_pubdate env pd st = (Inr comic, st1)"
  shows "\<exists>status body html el els t.
           urlopen env (strip_url pd) = Inr (HTTPResponse status body)
         \<and> document_fromstring env body = Inr html
         \<and> xpath_img_comic html = el # els
         \<and> re_sub_dash_suffix (get el ''alt'') = Inr t
         \<and> comic = DilbertComic_fields PyNone pd (get el ''src'')
                     (PyStr (isoformat pd @ ''.gif'')) t None (get el ''width'') (get el ''height'')
         \<and> st1 = st\<lparr>trace := trace st @ [Request (strip_url pd)]\<rparr>"
proof -
  obtain r0 st0 where f: "fetch_url env (PyStr (strip_url pd)) st = (r0, st0)"
    by (cases "fetch_url env (PyStr (strip_url pd)) st")
  with assms obtain res where r0: "r0 = Inr res"
    by (cases r0) (auto simp: find_comic_by_pubdate_def simp del: fetch_url.simps)
  from fetch_url_Inr [OF f [unfolded r0]] obtain status body where
    u: "urlopen env (strip_url pd) = Inr (HTTPResponse status body)" and
    res: "res = HTTPResponse status body" and
    st0: "st0 = st\<lparr>trace := trace st @ [Request (strip_url pd)]\<rparr>"
    by auto
  from assms f r0 res show ?thesis
    unfolding find_comic_by_pubdate_def
    by (auto simp: u st0 simp del: fetch_url.simps split: sum.splits list.splits)
qed

lemma download_comic_Inr:
  assumes "download_comic env fn u st1 = (Inr x, st2)"
  shows "\<exists>us status body.
           u = PyStr us \<and> urlopen env us = Inr (HTTPResponse status body)
         \<and> can_open_wb env (''cartoons/'' @ str fn)
         \<and> st2 = st1\<lparr>trace := trace st1 @ [Request us],
                      files := (files st1)(''cartoons/'' @ str fn \<mapsto> body)\<rparr>"
proof -
  obtain r0 st0 where f: "fetch_url env u st1 = (r0, st0)"
    by (cases "fetch_url env u st1")
  with assms obtain res where r0: "r0 = Inr res"
    by (cases r0) (auto simp: download_comic_def)
  from fetch_url_Inr [OF f [unfolded r0]] obtain us status body where
    "u = PyStr us" "urlopen env us = Inr (HTTPResponse status body)"
    "res = HTTPResponse status body" "st0 = st1\<lparr>trace := trace st1 @ [Request us]\<rparr>"
    by auto
  with assms f r0 show ?thesis
    unfolding download_comic_def
    by (auto simp: Let_def simp del: fetch_url.simps split: if_splits)
qed

lemma DilbertComic_fields_sel:
  "pubdate (DilbertComic_fields i pd u fn t upd w h) = pd"
  "url (DilbertComic_fields i pd u fn t upd w h) = u"
  "filename (DilbertComic_fields i pd u fn t upd w h) = fn"
  "width (DilbertComic_fields i pd u fn t upd w h) = w"
  "height (DilbertComic_fields i pd u fn t upd w h) = h"
  by (simp_all add: DilbertComic_fields_def fix_empty_title_def)

text \<open>What a date leaves behind when its step succeeds.\<close>

lemma update_comic_by_pubdate_success:
  assumes "update_comic_by_pubdate env pd st = (Inr x, st')"
  shows "\<exists>status body html el els u istatus ibody row.
           urlopen env (strip_url pd) = Inr (HTTPResponse status body)
         \<and> document_fromstring env body = Inr html
         \<and> xpath_img_comic html = el # els
         \<and> get el ''src'' = PyStr u
         \<and> urlopen env u = Inr (HTTPResponse istatus ibody)
         \<and> can_open_wb env (''cartoons/'' @ isoformat pd @ ''.gif'')
         \<and> files st' = (files st)(''cartoons/'' @ isoformat pd @ ''.gif'' \<mapsto> ibody)
         \<and> trace st' = trace st @ [Request (strip_url pd), Request u]
         \<and> rows (db st') = rows (db st) @ [row]
         \<and> seq (db st') = col_id row
         \<and> col_pubdate row = PyStr (isoformat pd)
         \<and> col_filename row = PyStr (isoformat pd @ ''.gif'')
         \<and> col_updated row = PyStr (strftime_now env pd)
         \<and> PyStr (isoformat pd @ ''.gif'') \<notin> set (map col_filename (rows (db st)))"
proof -
  from update_comic_by_pubdate_Inr [OF assms] obtain comic st1 st2 where
    f: "find_comic_by_pubdate env pd st = (Inr comic, st1)" and
    d: "download_comic env (filename comic) (url comic) st1 = (Inr (), st2)" and
    w: "write_comic_to_db env comic st2 = (Inr (), st')"
    by blast
  from find_comic_by_pubdate_Inr [OF f] obtain status body html el els t where
    p: "urlopen env (strip_url pd) = Inr (HTTPResponse status body)"
       "document_fromstring env body = Inr html"
       "xpath_img_comic html = el # els" and
    c: "comic = DilbertComic_fields PyNone pd (get el ''src'')
                  (PyStr (isoformat pd @ ''.gif'')) t None (get el ''width'') (get el ''height'')" and
    st1: "st1 = st\<lparr>trace := trace st @ [Request (strip_url pd)]\<rparr>"
    by blast
  have sel: "pubdate comic = pd" "url comic = get el ''src''"
    "filename comic = PyStr (isoformat pd @ ''.gif'')"
    by (simp_all add: c DilbertComic_fields_sel)
  from download_comic_Inr [OF d] obtain us istatus ibody where
    i: "get el ''src'' = PyStr us" "urlopen env us = Inr (HTTPResponse istatus ibody)"
       "can_open_wb env (''cartoons/'' @ isoformat pd @ ''.gif'')" and
    st2: "st2 = st1\<lparr>trace := trace st1 @ [Request us],
                    files := (files st1)(''cartoons/'' @ isoformat pd @ ''.gif'' \<mapsto> ibody)\<rparr>"
    by (auto simp: sel)
  note wr = write_comic_to_db_Inr [OF w]
  have "files st' = (files st)(''cartoons/'' @ isoformat pd @ ''.gif'' \<mapsto> ibody)"
    "trace st' = trace st @ [Request (strip_url pd), Request us]"
    by (simp_all add: wr(2) st2 st1)
  moreover have "\<exists>row. rows (db st') = rows (db st) @ [row]
         \<and> seq (db st') = col_id row
         \<and> col_pubdate row = PyStr (isoformat pd)
         \<and> col_filename row = PyStr (isoformat pd @ ''.gif'')
         \<and> col_updated row = PyStr (strftime_now env pd)"
    by (simp add: wr(2) st2 st1 sel)
  moreover have "PyStr (isoformat pd @ ''.gif'') \<notin> set (map col_filename (rows (db st)))"
    using wr(1) by (simp add: st2 st1 sel)
  ultimately show ?thesis
    using p i by blast
qed

text \<open>
  Claim C4.  When the page fetched for a date has no element whose class list contains the
  marker class, \<^verbatim>\<open>find_comic_by_pubdate\<close> raises IndexError (the spec's ParseError); the
  step for the date and the run end with that error in a state that differs from the state
  before the date only by the request for the page: no row is written, and no later date
  of the range is processed, wherever in the range the date stands.
\<close>

theorem page_without_comic_aborts_run:
  assumes "urlopen env (strip_url pd) = Inr (HTTPResponse status body)"
    and "document_fromstring env body = Inr html"
    and "list_all (\<lambda>el. ''img-comic'' \<notin> set (class_list el)) html"
  shows "find_comic_by_pubdate env pd st
           = (Inl IndexError, st\<lparr>trace := trace st @ [Request (strip_url pd)]\<rparr>)
       \<and> update_comic_by_pubdate env pd st
           = (Inl IndexError, st\<lparr>trace := trace st @ [Request (strip_url pd)]\<rparr>)
       \<and> update_loop env (pd # pds) st
           = (Inl IndexError, st\<lparr>trace := trace st @ [Request (strip_url pd)]\<rparr>)
       \<and> update_loop env (pds1 @ pd # pds) st
           = (case update_loop env pds1 st of
                (Inl e, s) \<Rightarrow> (Inl e, s)
              | (Inr u, s) \<Rightarrow> (Inl IndexError, s\<lparr>trace := trace s @ [Request (strip_url pd)]\<rparr>))"
proof -
  have "filter is_img_comic html = []"
    using assms(3) by (auto simp: filter_empty_conv list_all_iff is_img_comic_class_list)
  then have x: "xpath_img_comic html = []"
    by (simp add: xpath_img_comic_def)
  have f: "find_comic_by_pubdate env pd s
           = (Inl IndexError, s\<lparr>trace := trace s @ [Request (strip_url pd)]\<rparr>)" for s
    by (simp add: find_comic_by_pubdate_def assms(1,2) x)
  then have u: "update_comic_by_pubdate env pd s
           = (Inl IndexError, s\<lparr>trace := trace s @ [Request (strip_url pd)]\<rparr>)" for s
    by (simp add: update_comic_by_pubdate_def)
  then have l: "update_loop env (pd # pds) s
           = (Inl IndexError, s\<lparr>trace := trace s @ [Request (strip_url pd)]\<rparr>)" for s
    by simp
  have "update_loop env (pds1 @ pd # pds) st
           = (case update_loop env pds1 st of
                (Inl e, s) \<Rightarrow> (Inl e, s)
              | (Inr u, s) \<Rightarrow> (Inl IndexError, s\<lparr>trace := trace s @ [Request (strip_url pd)]\<rparr>))"
    unfolding update_loop_append l ..
  with f u l show ?thesis by simp
qed

theorem page_without_comic_aborts_run_witness:
  "urlopen blocked_env (strip_url 738955) = Inr (HTTPResponse 200 (isoformat 738955))
   \<and> document_fromstring blocked_env (isoformat 738955) = Inr blocked_page
   \<and> list_all (\<lambda>el. ''img-comic'' \<notin> set (class_list el)) blocked_page
   \<and> find_comic_by_pubdate blocked_env 738955 new_state
       = (Inl IndexError, new_state\<lparr>trace := [Request (strip_url 738955)]\<rparr>)
   \<and> update_loop blocked_env [738955, 738956] new_state
       = (Inl IndexError, new_state\<lparr>trace := [Request (strip_url 738955)]\<rparr>)"
proof -
  have h1: "urlopen blocked_env (strip_url 738955) = Inr (HTTPResponse 200 (isoformat 738955))"
    by (simp add: blocked_env_def sample_env_def strip_url_def)
  have h2: "document_fromstring blocked_env (isoformat 738955) = Inr blocked_page"
    by (simp add: blocked_env_def)
  have h3: "list_all (\<lambda>el. ''img-comic'' \<notin> set (class_list el)) blocked_page"
    by (simp add: blocked_page_def class_list_def xml_space_def)
  from page_without_comic_aborts_run [OF h1 h2 h3, of new_state "[738956]" "[]"] h1 h2 h3
  show ?thesis
    by (simp add: new_state_def)
qed

text \<open>
  Claim C7.  The step for a date writes its row only when the page was fetched, the comic
  was found in it, and the image was fetched and saved under the name of the date: a step
  that returns has done all of that and has appended one row for the date.  A step that
  fails at any point leaves the table as it was and ends the run, so no row for the date
  is written later in the run either.
\<close>

theorem row_written_only_after_all_steps:
  assumes "update_comic_by_pubdate env pd st = (r, st')"
  shows "(r = Inr () \<longrightarrow>
           (\<exists>status body html el els u istatus ibody row.
              urlopen env (strip_url pd) = Inr (HTTPResponse status body)
            \<and> document_fromstring env body = Inr html
            \<and> xpath_img_comic html = el # els
            \<and> get el ''src'' = PyStr u
            \<and> urlopen env u = Inr (HTTPResponse istatus ibody)
            \<and> can_open_wb env (''cartoons/'' @ isoformat pd @ ''.gif'')
            \<and> files st' (''cartoons/'' @ isoformat pd @ ''.gif'') = Some ibody
            \<and> trace st' = trace st @ [Request (strip_url pd), Request u]
            \<and> rows (db st') = rows (db st) @ [row]
            \<and> col_pubdate row = PyStr (isoformat pd)))
       \<and> (r \<noteq> Inr () \<longrightarrow>
            db st' = db st \<and> update_loop env (pd # pds) st = (r, st')
            \<and> db (snd (update_loop env (pd # pds) st)) = db st)"
proof (cases r)
  case (Inl e)
  with assms have "db st' = db st"
    by (simp add: update_comic_by_pubdate_Inl_db)
  with assms Inl show ?thesis by simp
next
  case (Inr x)
  with assms have "update_comic_by_pubdate env pd st = (Inr x, st')" by simp
  from update_comic_by_pubdate_success [OF this] obtain status body html el els u istatus ibody row
    where "urlopen env (strip_url pd) = Inr (HTTPResponse status body)"
      "document_fromstring env body = Inr html"
      "xpath_img_comic html = el # els"
      "get el ''src'' = PyStr u"
      "urlopen env u = Inr (HTTPResponse istatus ibody)"
      "can_open_wb env (''cartoons/'' @ isoformat pd @ ''.gif'')"
      "files st' = (files st)(''cartoons/'' @ isoformat pd @ ''.gif'' \<mapsto> ibody)"
      "trace st' = trace st @ [Request (strip_url pd), Request u]"
      "rows (db st') = rows (db st) @ [row]"
      "col_pubdate row = PyStr (isoformat pd)"
    by blast
  then have "\<exists>status body html el els u istatus ibody row.
              urlopen env (strip_url pd) = Inr (HTTPResponse status body)
            \<and> document_fromstring env body = Inr html
            \<and> xpath_img_comic html = el # els
            \<and> get el ''src'' = PyStr u
            \<and> urlopen env u = Inr (HTTPResponse istatus ibody)
            \<and> can_open_wb env (''cartoons/'' @ isoformat pd @ ''.gif'')
            \<and> files st' (''cartoons/'' @ isoformat pd @ ''.gif'') = Some ibody
            \<and> trace st' = trace st @ [Request (strip_url pd), Request u]
            \<and> rows (db st') = rows (db st) @ [row]
            \<and> col_pubdate row = PyStr (isoformat pd)"
    by (intro exI [of _ status] exI [of _ body] exI [of _ html] exI [of _ el] exI [of _ els]
        exI [of _ u] exI [of _ istatus] exI [of _ ibody] exI [of _ row]) simp
  with Inr show ?thesis by simp
qed


theorem row_written_only_after_all_steps_witness:
  "update_comic_by_pubdate sample_env 738960 new_state
     = (Inr (), snd (update_comic_by_pubdate sample_env 738960 new_state))
   \<and> (\<exists>u ibody row.
          urlopen sample_env u = Inr (HTTPResponse 200 ibody)
        \<and> files (snd (update_comic_by_pubdate sample_env 738960 new_state))
             (''cartoons/'' @ isoformat 738960 @ ''.gif'') = Some ibody
        \<and> rows (db (snd (update_comic_by_pubdate sample_env 738960 new_state))) = [row]
        \<and> col_pubdate row = PyStr (isoformat 738960))
   \<and> update_comic_by_pubdate blocked_env 738955 new_state
       = (Inl IndexError, snd (update_comic_by_pubdate blocked_env 738955 new_state))
   \<and> Inl IndexError \<noteq> (Inr () :: error + unit)
   \<and> db (snd (update_comic_by_pubdate blocked_env 738955 new_state)) = db new_state
   \<and> db (snd (update_loop blocked_env [738955, 738956] new_state)) = db new_state"
proof -
  have h1: "update_comic_by_pubdate sample_env 738960 new_state
     = (Inr (), snd (update_comic_by_pubdate sample_env 738960 new_state))"
    by (simp add: sample_update_comic new_state_def empty_db_def)
  have f: "find_comic_by_pubdate blocked_env 738955 new_state
       = (Inl IndexError, new_state\<lparr>trace := [Request (strip_url 738955)]\<rparr>)"
    by (simp add: find_comic_by_pubdate_def blocked_env_def sample_env_def strip_url_def
        xpath_img_comic_def blocked_page_def is_img_comic_class_list class_list_def
        xml_space_def new_state_def)
  have h2: "update_comic_by_pubdate blocked_env 738955 new_state
       = (Inl IndexError, snd (update_comic_by_pubdate blocked_env 738955 new_state))"
    by (simp add: update_comic_by_pubdate_def f)
  from row_written_only_after_all_steps [OF h1, of "[]"]
  have "\<exists>(status :: nat) (body :: string) (html :: element list) (el :: element)
           (els :: element list) u (istatus :: nat) ibody row.
          urlopen sample_env u = Inr (HTTPResponse istatus ibody)
        \<and> files (snd (update_comic_by_pubdate sample_env 738960 new_state))
             (''cartoons/'' @ isoformat 738960 @ ''.gif'') = Some ibody
        \<and> rows (db (snd (update_comic_by_pubdate sample_env 738960 new_state)))
            = rows (db new_state) @ [row]
        \<and> col_pubdate row = PyStr (isoformat 738960)"
    by blast
  then obtain u istatus ibody row where a:
    "urlopen sample_env u = Inr (HTTPResponse istatus ibody)"
    "files (snd (update_comic_by_pubdate sample_env 738960 new_state))
             (''cartoons/'' @ isoformat 738960 @ ''.gif'') = Some ibody"
    "rows (db (snd (update_comic_by_pubdate sample_env 738960 new_state)))
            = rows (db new_state) @ [row]"
    "col_pubdate row = PyStr (isoformat 738960)"
    by blast
  from a(1) have "istatus = 200" by (simp add: sample_env_def)
  with a have b: "\<exists>u ibody row.
          urlopen sample_env u = Inr (HTTPResponse 200 ibody)
        \<and> files (snd (update_comic_by_pubdate sample_env 738960 new_state))
             (''cartoons/'' @ isoformat 738960 @ ''.gif'') = Some ibody
        \<and> rows (db (snd (update_comic_by_pubdate sample_env 738960 new_state))) = [row]
        \<and> col_pubdate row = PyStr (isoformat 738960)"
    by (intro exI [of _ u] exI [of _ ibody] exI [of _ row]) (simp add: new_state_def empty_db_def)
  from row_written_only_after_all_steps [OF h2, of "[738956]"]
  have c: "db (snd (update_comic_by_pubdate blocked_env 738955 new_state)) = db new_state"
    "db (snd (update_loop blocked_env [738955, 738956] new_state)) = db new_state"
    by simp_all
  from h1 b h2 c show ?thesis by simp
qed

section \<open>The range of a run\<close>

lemma daterange_upto: "daterange a b = [a..b]"
proof -
  have "map (\<lambda>n. a + int n) [0..<k] = [a..a + int k - 1]" for k
  proof (induction k)
    case 0
    then show ?case by simp
  next
    case (Suc k)
    have "[a..a + int (Suc k) - 1] = [a..a + int k - 1] @ [a + int k]"
      using upto_rec2 [of a "a + int k"] by simp
    with Suc show ?case by simp
  qed
  from this [of "nat (b - a + 1)"] show ?thesis
    by (cases "a \<le> b") (simp_all add: daterange_def)
qed

lemma month_cases:
  "1 \<le> m \<Longrightarrow> m \<le> 12 \<Longrightarrow>
     m = 1 \<or> m = 2 \<or> m = 3 \<or> m = 4 \<or> m = 5 \<or> m = 6 \<or> m = 7 \<or> m = 8 \<or> m = 9 \<or> m = 10
     \<or> m = 11 \<or> m = (12::int)"
  by arith

lemma days_before_year_nonneg: "1 \<le> y \<Longrightarrow> 0 \<le> days_before_year y"
proof -
  assume "1 \<le> y"
  then have "(y - 1) div 100 \<le> (y - 1) div 4" "0 \<le> (y - 1) div 400" "0 \<le> (y - 1) * 365"
    by (simp_all add: zdiv_mono2)
  then show ?thesis
    by (simp add: days_before_year_def Let_def)
qed

lemma days_before_month_nonneg: "1 \<le> m \<Longrightarrow> m \<le> 12 \<Longrightarrow> 0 \<le> days_before_month y m"
  using month_cases [of m]
  by (auto simp: days_before_month_def DAYS_BEFORE_MONTH_def)

lemma ymd2ord_pos: "valid_ymd y m d \<Longrightarrow> 1 \<le> ymd2ord y m d"
  using days_before_year_nonneg [of y] days_before_month_nonneg [of m y]
  by (simp add: valid_ymd_def ymd2ord_def MINYEAR_def)

lemma parse_isoformat_date_pos: "parse_isoformat_date s = Inr d \<Longrightarrow> 1 \<le> d"
  unfolding parse_isoformat_date_def Let_def
  by (auto split: list.splits if_splits dest: ymd2ord_pos)

lemma fromisoformat_pos: "fromisoformat v = Inr d \<Longrightarrow> 1 \<le> d"
  by (cases v) (auto dest: parse_isoformat_date_pos)

lemma latest_date_in_db_eq:
  "latest_date_in_db s =
     (case order_by_pubdate_desc s of
        [] \<Rightarrow> Inr None
      | r # rs \<Rightarrow> (case fromisoformat (col_pubdate r) of Inl e \<Rightarrow> Inl e | Inr d \<Rightarrow> Inr (Some d)))"
  by (simp add: latest_date_in_db_def sql_limit_def split: list.splits sum.splits)

lemma order_by_pubdate_desc_Nil: "order_by_pubdate_desc s = [] \<longleftrightarrow> rows s = []"
proof -
  have "length (order_by_pubdate_desc s) = length (rows s)"
    by (simp add: order_by_pubdate_desc_def)
  then show ?thesis by (metis length_0_conv)
qed

lemma latest_date_in_db_None: "latest_date_in_db s = Inr None \<longleftrightarrow> rows s = []"
proof (cases "order_by_pubdate_desc s")
  case Nil
  moreover from Nil have "rows s = []"
    using order_by_pubdate_desc_Nil [of s] by simp
  ultimately show ?thesis
    by (simp add: latest_date_in_db_eq)
next
  case (Cons r rs)
  then have "rows s \<noteq> []"
    using order_by_pubdate_desc_Nil [of s] by simp
  with Cons show ?thesis
    by (simp add: latest_date_in_db_eq split: sum.splits)
qed

lemma latest_date_in_db_pos: "latest_date_in_db s = Inr (Some L) \<Longrightarrow> 1 \<le> L"
  by (auto simp: latest_date_in_db_eq split: list.splits sum.splits dest: fromisoformat_pos)

text \<open>The range of a run, by what the table gives as its latest date.\<close>

lemma update_empty_table:
  assumes "latest_date_in_db (db st) = Inr None" and "valid_date today" and "10 < today"
  shows "update env today st = update_loop env [today - 9..today] st"
  using assms
  by (simp add: update_def date_add_def valid_date_def daterange_upto)

lemma update_after_latest:
  assumes "latest_date_in_db (db st) = Inr (Some L)" and "valid_date today" and "L < today"
  shows "update env today st = update_loop env [L + 1..today] st"
  using assms latest_date_in_db_pos [OF assms(1)]
  by (simp add: update_def date_add_def valid_date_def daterange_upto)

lemma update_nothing_to_do:
  assumes "latest_date_in_db (db st) = Inr (Some L)" and "today \<le> L"
  shows "snd (update env today st) = st"
    and "L < MAXORDINAL \<Longrightarrow> update env today st = (Inr (), st)"
  using assms latest_date_in_db_pos [OF assms(1)]
  by (simp_all add: update_def date_add_def valid_date_def daterange_upto)

text \<open>What a loop that returns has requested and written.\<close>

lemma update_loop_success:
  assumes "update_loop env ds st = (Inr x, st')"
  shows "\<exists>imgs. length imgs = length ds
           \<and> trace st' = trace st
               @ concat (map2 (\<lambda>d u. [Request (strip_url d), Request u, Sleep]) ds imgs)
           \<and> map col_pubdate (rows (db st'))
               = map col_pubdate (rows (db st)) @ map (\<lambda>d. PyStr (isoformat d)) ds"
  using assms
proof (induction ds arbitrary: st)
  case Nil
  then show ?case by simp
next
  case (Cons d ds)
  obtain r st1 where step: "update_comic_by_pubdate env d st = (r, st1)"
    by (cases "update_comic_by_pubdate env d st")
  with Cons.prems obtain y where r: "r = Inr y"
    by (cases r) auto
  from update_comic_by_pubdate_success [OF step [unfolded r]] obtain u row where
    t1: "trace st1 = trace st @ [Request (strip_url d), Request u]" and
    r1: "rows (db st1) = rows (db st) @ [row]" "col_pubdate row = PyStr (isoformat d)"
    by blast
  let ?st2 = "st1\<lparr>trace := trace st1 @ [Sleep]\<rparr>"
  from Cons.prems step r have "update_loop env ds ?st2 = (Inr x, st')" by simp
  from Cons.IH [OF this] obtain imgs where
    i: "length imgs = length ds"
       "trace st' = trace ?st2
          @ concat (map2 (\<lambda>d u. [Request (strip_url d), Request u, Sleep]) ds imgs)"
       "map col_pubdate (rows (db st'))
          = map col_pubdate (rows (db ?st2)) @ map (\<lambda>d. PyStr (isoformat d)) ds"
    by blast
  have "length (u # imgs) = length (d # ds)
      \<and> trace st' = trace st
          @ concat (map2 (\<lambda>d u. [Request (strip_url d), Request u, Sleep]) (d # ds) (u # imgs))
      \<and> map col_pubdate (rows (db st'))
          = map col_pubdate (rows (db st)) @ map (\<lambda>d. PyStr (isoformat d)) (d # ds)"
    using i t1 r1 by simp
  then show ?case by blast
qed


section \<open>Runs in the sample world\<close>

lemma sample_loop:
  assumes "distinct (map isoformat ds)"
    and "list_all (\<lambda>d. PyStr (isoformat d @ ''.gif'') \<notin> set (map col_filename (rows (db st)))) ds"
  shows "fst (update_loop sample_env ds st) = Inr ()
       \<and> trace (snd (update_loop sample_env ds st)) = trace st
           @ concat (map (\<lambda>d. [Request (strip_url d),
                                 Request (''http://assets.amuniversal.com/'' @ isoformat d), Sleep]) ds)"
  using assms
proof (induction ds arbitrary: st)
  case Nil
  then show ?case by simp
next
  case (Cons d ds)
  let ?st1 = "st\<lparr>trace := trace st @ [Request (strip_url d),
                                          Request (''http://assets.amuniversal.com/'' @ isoformat d)],
                 files := (files st)(''cartoons/'' @ isoformat d @ ''.gif''
                            \<mapsto> drop 25 (''http://assets.amuniversal.com/'' @ isoformat d)),
                 db := \<lparr>rows = rows (db st) @ [sample_row (next_id (db st)) d],
                        seq = next_id (db st)\<rparr>\<rparr>"
  let ?st2 = "?st1\<lparr>trace := trace ?st1 @ [Sleep]\<rparr>"
  have step: "update_comic_by_pubdate sample_env d st = (Inr (), ?st1)"
    using Cons.prems(2) by (intro sample_update_comic) simp
  have "distinct (map isoformat ds)"
    using Cons.prems(1) by simp
  moreover have "list_all (\<lambda>d. PyStr (isoformat d @ ''.gif'')
                   \<notin> set (map col_filename (rows (db ?st2)))) ds"
    unfolding list_all_iff
  proof
    fix e assume e: "e \<in> set ds"
    with Cons.prems(1) have "isoformat e \<noteq> isoformat d"
      by (metis distinct.simps(2) image_eqI list.simps(9) set_map)
    moreover from e Cons.prems(2)
    have "PyStr (isoformat e @ ''.gif'') \<notin> set (map col_filename (rows (db st)))"
      by (simp add: list_all_iff)
    ultimately show "PyStr (isoformat e @ ''.gif'') \<notin> set (map col_filename (rows (db ?st2)))"
      by (simp add: sample_row_def)
  qed
  ultimately have "fst (update_loop sample_env ds ?st2) = Inr ()
       \<and> trace (snd (update_loop sample_env ds ?st2)) = trace ?st2
           @ concat (map (\<lambda>d. [Request (strip_url d),
                                 Request (''http://assets.amuniversal.com/'' @ isoformat d), Sleep]) ds)"
    by (rule Cons.IH)
  then show ?case
    by (simp add: step)
qed

lemma page_requests_sample:
  "page_requests (tr @ concat (map (\<lambda>d. [Request (strip_url d),
       Request (''http://assets.amuniversal.com/'' @ isoformat d), Sleep]) ds))
   = page_requests tr @ map strip_url ds"
  by (induction ds arbitrary: tr rule: rev_induct) (simp_all add: page_requests_def strip_url_def)

lemma digit_char_simps:
  "digit_char 0 = CHR ''0''" "digit_char 1 = CHR ''1''" "digit_char 2 = CHR ''2''"
  "digit_char 3 = CHR ''3''" "digit_char 4 = CHR ''4''" "digit_char 5 = CHR ''5''"
  "digit_char 6 = CHR ''6''" "digit_char 7 = CHR ''7''" "digit_char 8 = CHR ''8''"
  "digit_char 9 = CHR ''9''"
  by code_simp+

lemma digit_char_Suc_0: "digit_char (Suc 0) = CHR ''1''"
  using digit_char_simps(2) by simp

lemma replicate_zeros:
  "replicate (4 - Suc 0) c = [c, c, c]" "replicate (4 - 2) c = [c, c]"
  "replicate (4 - 3) c = [c]" "replicate (2 - Suc 0) c = [c]"
  "replicate (4 - Suc (Suc 0)) c = [c, c]" "replicate (4 - Suc (Suc (Suc 0))) c = [c]"
  by (simp_all add: numeral_Bit0 numeral_Bit1)

lemma replicate_small: "replicate 3 c = [c, c, c]" "replicate 2 c = [c, c]"
  by (simp_all add: numeral_3_eq_3 numeral_2_eq_2)

lemma str_nat_1: "n < 10 \<Longrightarrow> str_nat n = [digit_char n]"
  by (subst str_nat.simps) simp

lemma str_nat_step: "10 \<le> n \<Longrightarrow> str_nat n = str_nat (n div 10) @ [digit_char (n mod 10)]"
  by (subst str_nat.simps) simp

lemma str_nat_2: "10 \<le> n \<Longrightarrow> n < 100 \<Longrightarrow> str_nat n = [digit_char (n div 10), digit_char (n mod 10)]"
  by (simp add: str_nat_step str_nat_1)

lemma str_nat_3:
  "100 \<le> n \<Longrightarrow> n < 1000 \<Longrightarrow>
     str_nat n = [digit_char (n div 100), digit_char (n div 10 mod 10), digit_char (n mod 10)]"
proof -
  assume a: "100 \<le> n" "n < 1000"
  have "n div 10 div 10 = n div 100"
    by (simp add: div_mult2_eq [symmetric])
  with a str_nat_2 [of "n div 10"] show ?thesis
    by (simp add: str_nat_step)
qed

lemma str_nat_4:
  "1000 \<le> n \<Longrightarrow> n < 10000 \<Longrightarrow>
     str_nat n = [digit_char (n div 1000), digit_char (n div 100 mod 10),
                  digit_char (n div 10 mod 10), digit_char (n mod 10)]"
proof -
  assume a: "1000 \<le> n" "n < 10000"
  have "n div 10 div 100 = n div 1000" "n div 10 div 10 = n div 100"
    by (simp_all add: div_mult2_eq [symmetric])
  with a str_nat_3 [of "n div 10"] show ?thesis
    by (simp add: str_nat_step)
qed

lemma zero_pad_2:
  assumes "0 \<le> n" and "n < 100"
  shows "zero_pad 2 n = [digit_char (nat n div 10), digit_char (nat n mod 10)]"
proof (cases "n < 10")
  case True
  with assms show ?thesis
    by (simp add: zero_pad_def str_int_def str_nat_1 digit_char_simps replicate_zeros replicate_small)
next
  case False
  with assms show ?thesis
    by (simp add: zero_pad_def str_int_def str_nat_2)
qed

lemma zero_pad_4:
  assumes "0 \<le> n" and "n < 10000"
  shows "zero_pad 4 n = [digit_char (nat n div 1000), digit_char (nat n div 100 mod 10),
                         digit_char (nat n div 10 mod 10), digit_char (nat n mod 10)]"
proof -
  consider "n < 10" | "10 \<le> n" "n < 100" | "100 \<le> n" "n < 1000" | "1000 \<le> n"
    by linarith
  then show ?thesis
  proof cases
    case 1
    with assms show ?thesis
      by (simp add: zero_pad_def str_int_def str_nat_1 digit_char_simps replicate_zeros replicate_small)
  next
    case 2
    with assms show ?thesis
      by (simp add: zero_pad_def str_int_def str_nat_2 digit_char_simps replicate_zeros replicate_small)
  next
    case 3
    with assms show ?thesis
      by (simp add: zero_pad_def str_int_def str_nat_3 digit_char_simps replicate_zeros replicate_small)
  next
    case 4
    with assms show ?thesis
      by (simp add: zero_pad_def str_int_def str_nat_4)
  qed
qed

lemma isoformat_digits:
  assumes "ord2ymd n = (y, m, d)" and "0 \<le> y" "y < 10000" "0 \<le> m" "m < 100" "0 \<le> d" "d < 100"
  shows "isoformat n =
     [digit_char (nat y div 1000), digit_char (nat y div 100 mod 10),
      digit_char (nat y div 10 mod 10), digit_char (nat y mod 10), CHR ''-'',
      digit_char (nat m div 10), digit_char (nat m mod 10), CHR ''-'',
      digit_char (nat d div 10), digit_char (nat d mod 10)]"
  using assms by (simp add: isoformat_def zero_pad_2 zero_pad_4)

lemma ord2ymd_march_2024:
  "ord2ymd 738950 = (2024, 3, 5)" "ord2ymd 738951 = (2024, 3, 6)"
  "ord2ymd 738952 = (2024, 3, 7)" "ord2ymd 738953 = (2024, 3, 8)"
  "ord2ymd 738954 = (2024, 3, 9)" "ord2ymd 738955 = (2024, 3, 10)"
  "ord2ymd 738956 = (2024, 3, 11)" "ord2ymd 738957 = (2024, 3, 12)"
  "ord2ymd 738958 = (2024, 3, 13)" "ord2ymd 738959 = (2024, 3, 14)"
  "ord2ymd 738960 = (2024, 3, 15)"
  by (simp_all add: ord2ymd_def ord2md_def Let_def DI400Y_def DI100Y_def DI4Y_def
      DAYS_BEFORE_MONTH_def DAYS_IN_MONTH_def)

lemma march_2024:
  "isoformat 738950 = ''2024-03-05''" "isoformat 738951 = ''2024-03-06''"
  "isoformat 738952 = ''2024-03-07''" "isoformat 738953 = ''2024-03-08''"
  "isoformat 738954 = ''2024-03-09''" "isoformat 738955 = ''2024-03-10''"
  "isoformat 738956 = ''2024-03-11''" "isoformat 738957 = ''2024-03-12''"
  "isoformat 738958 = ''2024-03-13''" "isoformat 738959 = ''2024-03-14''"
  "isoformat 738960 = ''2024-03-15''"
  by (simp_all add: isoformat_def ord2ymd_march_2024 zero_pad_2 zero_pad_4 digit_char_simps
      digit_char_Suc_0)

lemma ymd2ord_march_2024:
  "ymd2ord 2024 3 5 = 738950" "ymd2ord 2024 3 6 = 738951" "ymd2ord 2024 3 15 = 738960"
  by (simp_all add: ymd2ord_def days_before_year_def days_before_month_def
      DAYS_BEFORE_MONTH_def is_leap_def)

lemma parse_2024_03_12: "parse_isoformat_date ''2024-03-12'' = Inr 738957"
  by (simp add: parse_isoformat_date_def is_digit_def digits_val_def digit_val_def valid_ymd_def
      MINYEAR_def MAXYEAR_def days_in_month_def ymd2ord_def days_before_year_def
      days_before_month_def DAYS_BEFORE_MONTH_def DAYS_IN_MONTH_def is_leap_def)

lemma latest_one_row_state: "latest_date_in_db (db one_row_state) = Inr (Some 738957)"
  by (simp add: latest_date_in_db_eq order_by_pubdate_desc_def one_row_state_def parse_2024_03_12)

section \<open>Claims about the range of a run\<close>

text \<open>
  Claim C1, amended.  When the table gives no latest date, the date ten days before today
  stands in for it, so the range of the run is the ten dates from nine days before today to
  today.  A run that returns has then made, date by date in ascending order, one request
  for the page of the date and one for its image, followed by the pause, and has written
  one row for each of the ten dates.
\<close>

theorem first_run_covers_last_ten_days:
  assumes "latest_date_in_db (db st) = Inr None" and "valid_date today" and "10 < today"
  shows "update env today st = update_loop env (daterange (today - 10 + 1) today) st
       \<and> daterange (today - 10 + 1) today = [today - 9..today]
       \<and> length [today - 9..today] = 10
       \<and> (update env today st = (Inr (), st') \<longrightarrow>
            (\<exists>imgs. length imgs = 10
               \<and> trace st' = trace st
                   @ concat (map2 (\<lambda>d u. [Request (strip_url d), Request u, Sleep])
                       [today - 9..today] imgs)
               \<and> map col_pubdate (rows (db st'))
                   = map (\<lambda>d. PyStr (isoformat d)) [today - 9..today]))"
proof -
  have u: "update env today st = update_loop env [today - 9..today] st"
    using assms by (rule update_empty_table)
  have r: "rows (db st) = []"
    using assms(1) by (simp add: latest_date_in_db_None)
  have d: "daterange (today - 10 + 1) today = [today - 9..today]"
    by (simp add: daterange_upto)
  have "update env today st = (Inr (), st') \<Longrightarrow>
            (\<exists>imgs. length imgs = 10
               \<and> trace st' = trace st
                   @ concat (map2 (\<lambda>d u. [Request (strip_url d), Request u, Sleep])
                       [today - 9..today] imgs)
               \<and> map col_pubdate (rows (db st'))
                   = map (\<lambda>d. PyStr (isoformat d)) [today - 9..today])"
    using update_loop_success [of env "[today - 9..today]" st "()" st'] r
    by (simp add: u)
  with u d show ?thesis by simp
qed

theorem first_run_covers_last_ten_days_witness:
  "latest_date_in_db (db new_state) = Inr None \<and> valid_date 738960 \<and> (10::int) < 738960
   \<and> update sample_env 738960 new_state
       = (Inr (), snd (update sample_env 738960 new_state))
   \<and> update sample_env 738960 new_state = update_loop sample_env [738951..738960] new_state
   \<and> map col_pubdate (rows (db (snd (update sample_env 738960 new_state))))
       = map (\<lambda>d. PyStr (isoformat d)) [738951..738960]"
proof -
  have h1: "latest_date_in_db (db new_state) = Inr None"
    by (simp add: latest_date_in_db_None new_state_def empty_db_def)
  have h2: "valid_date 738960"
    by (simp add: valid_date_def MAXORDINAL_def)
  have h3: "(10::int) < 738960" by simp
  note t = first_run_covers_last_ten_days [OF h1 h2 h3, of sample_env]
  have "fst (update_loop sample_env [738951..738960] new_state) = Inr ()"
    by (intro conjunct1 [OF sample_loop]) (simp_all add: march_2024 new_state_def empty_db_def)
  with t have h4: "update sample_env 738960 new_state
       = (Inr (), snd (update sample_env 738960 new_state))"
    by (simp add: prod_eq_iff)
  from conjunct2 [OF conjunct2 [OF conjunct2 [OF first_run_covers_last_ten_days [OF h1 h2 h3,
        where env = sample_env and st' = "snd (update sample_env 738960 new_state)"]]],
      THEN mp, OF h4]
  have r: "map col_pubdate (rows (db (snd (update sample_env 738960 new_state))))
       = map (\<lambda>d. PyStr (isoformat d)) [738951..738960]"
    by auto
  from t have u: "update sample_env 738960 new_state
       = update_loop sample_env [738951..738960] new_state"
    by simp
  from h1 h2 h3 h4 u r show ?thesis
    by blast
qed

theorem first_run_eleven_days_counterexample:
  "latest_date_in_db (db new_state) = Inr None
   \<and> fst (update sample_env (ymd2ord 2024 3 15) new_state) = Inr ()
   \<and> page_requests (trace (snd (update sample_env (ymd2ord 2024 3 15) new_state)))
       = map strip_url (daterange (ymd2ord 2024 3 6) (ymd2ord 2024 3 15))
   \<and> length (page_requests (trace (snd (update sample_env (ymd2ord 2024 3 15) new_state)))) = 10
   \<and> length (page_requests (trace (snd (update sample_env (ymd2ord 2024 3 15) new_state)))) \<noteq> 11
   \<and> strip_url (ymd2ord 2024 3 5)
       \<notin> set (page_requests (trace (snd (update sample_env (ymd2ord 2024 3 15) new_state))))"
proof -
  have h1: "latest_date_in_db (db new_state) = Inr None"
    by (simp add: latest_date_in_db_None new_state_def empty_db_def)
  have u: "update sample_env 738960 new_state = update_loop sample_env [738951..738960] new_state"
    using update_empty_table [OF h1, of 738960 sample_env]
    by (simp add: valid_date_def MAXORDINAL_def)
  have l: "fst (update_loop sample_env [738951..738960] new_state) = Inr ()
       \<and> trace (snd (update_loop sample_env [738951..738960] new_state)) = trace new_state
           @ concat (map (\<lambda>d. [Request (strip_url d),
                 Request (''http://assets.amuniversal.com/'' @ isoformat d), Sleep]) [738951..738960])"
    by (intro sample_loop) (simp_all add: march_2024 new_state_def empty_db_def)
  have p: "page_requests (trace (snd (update sample_env 738960 new_state)))
           = map strip_url [738951..738960]"
    unfolding u conjunct2 [OF l] page_requests_sample
    by (simp add: new_state_def page_requests_def)
  have n: "strip_url 738950 \<notin> set (map strip_url [738951..738960])"
    by (simp add: strip_url_def march_2024)
  from h1 u l p n show ?thesis
    by (simp add: ymd2ord_march_2024 daterange_upto)
qed

text \<open>
  Claim C2.  When the table gives the latest date L, the run is the loop over the dates
  from the day after L to today, in ascending order; a run that returns has requested
  page and image for each of them in that order and has written their rows after the rows
  that were there.  When L is today or later the range is empty and the run leaves the
  state as it was: no request, no row.  (For L the last day of the calendar the day after
  L does not exist and the run raises OverflowError, still without a request or a row.)
\<close>

theorem run_covers_days_after_latest:
  assumes "latest_date_in_db (db st) = Inr (Some L)" and "valid_date today"
  shows "(L < today \<longrightarrow>
            update env today st = update_loop env (daterange (L + 1) today) st
          \<and> daterange (L + 1) today = [L + 1..today])
       \<and> (update env today st = (Inr (), st') \<longrightarrow>
            (\<exists>imgs. length imgs = length [L + 1..today]
               \<and> trace st' = trace st
                   @ concat (map2 (\<lambda>d u. [Request (strip_url d), Request u, Sleep])
                       [L + 1..today] imgs)
               \<and> map col_pubdate (rows (db st'))
                   = map col_pubdate (rows (db st)) @ map (\<lambda>d. PyStr (isoformat d)) [L + 1..today]))
       \<and> (today \<le> L \<longrightarrow>
            daterange (L + 1) today = [] \<and> snd (update env today st) = st
          \<and> (L < MAXORDINAL \<longrightarrow> update env today st = (Inr (), st)))"
proof -
  have a: "L < today \<Longrightarrow> update env today st = update_loop env [L + 1..today] st"
    using assms by (rule update_after_latest)
  have b: "today \<le> L \<Longrightarrow> snd (update env today st) = st"
    "today \<le> L \<Longrightarrow> L < MAXORDINAL \<Longrightarrow> update env today st = (Inr (), st)"
    using update_nothing_to_do [OF assms(1)] by blast+
  have c: "\<exists>imgs. length imgs = length [L + 1..today]
               \<and> trace st' = trace st
                   @ concat (map2 (\<lambda>d u. [Request (strip_url d), Request u, Sleep])
                       [L + 1..today] imgs)
               \<and> map col_pubdate (rows (db st'))
                   = map col_pubdate (rows (db st)) @ map (\<lambda>d. PyStr (isoformat d)) [L + 1..today]"
    if r: "update env today st = (Inr (), st')"
  proof (cases "L < today")
    case True
    with a r have "update_loop env [L + 1..today] st = (Inr (), st')" by simp
    then show ?thesis by (rule update_loop_success)
  next
    case False
    with b(1) r have "st' = st" by simp
    with False show ?thesis by simp
  qed
  from a b c show ?thesis
    by (simp add: daterange_upto)
qed

theorem run_covers_days_after_latest_witness:
  "latest_date_in_db (db one_row_state) = Inr (Some 738957) \<and> valid_date 738960
   \<and> (738957::int) < 738960
   \<and> update sample_env 738960 one_row_state
       = (Inr (), snd (update sample_env 738960 one_row_state))
   \<and> update sample_env 738960 one_row_state
       = update_loop sample_env [738958, 738959, 738960] one_row_state
   \<and> map col_pubdate (rows (db (snd (update sample_env 738960 one_row_state))))
       = [PyStr ''2024-03-12'', PyStr ''2024-03-13'', PyStr ''2024-03-14'', PyStr ''2024-03-15'']
   \<and> valid_date 738957 \<and> (738957::int) \<le> 738957 \<and> 738957 < MAXORDINAL
   \<and> update sample_env 738957 one_row_state = (Inr (), one_row_state)"
proof -
  note h1 = latest_one_row_state
  have h2: "valid_date 738960" "valid_date 738957"
    by (simp_all add: valid_date_def MAXORDINAL_def)
  note t = run_covers_days_after_latest [OF h1 h2(1), of sample_env]
  have u: "update sample_env 738960 one_row_state
       = update_loop sample_env [738958, 738959, 738960] one_row_state"
    using t by (simp add: daterange_upto)
  have "fst (update_loop sample_env [738958, 738959, 738960] one_row_state) = Inr ()"
    by (intro conjunct1 [OF sample_loop]) (simp_all add: march_2024 one_row_state_def)
  with u have h4: "update sample_env 738960 one_row_state
       = (Inr (), snd (update sample_env 738960 one_row_state))"
    by (simp add: prod_eq_iff)
  have o: "map col_pubdate (rows (db one_row_state)) = [PyStr ''2024-03-12'']"
    by (simp add: one_row_state_def)
  from conjunct1 [OF conjunct2 [OF run_covers_days_after_latest [OF h1 h2(1),
        where env = sample_env and st' = "snd (update sample_env 738960 one_row_state)"]],
      THEN mp, OF h4]
  have r: "map col_pubdate (rows (db (snd (update sample_env 738960 one_row_state))))
       = [PyStr ''2024-03-12'', PyStr ''2024-03-13'', PyStr ''2024-03-14'', PyStr ''2024-03-15'']"
    by (auto simp: march_2024 o)
  from run_covers_days_after_latest [OF h1 h2(2), of sample_env]
  have n: "update sample_env 738957 one_row_state = (Inr (), one_row_state)"
    by (simp add: MAXORDINAL_def)
  from h1 h2 h4 u r n show ?thesis
    by (simp add: MAXORDINAL_def)
qed

section \<open>The calendar: dates in order\<close>

lemma div_succ:
  fixes z k :: int
  assumes "0 < k"
  shows "(z + 1) div k = z div k + (if (z + 1) mod k = 0 then 1 else 0)"
proof -
  have r: "0 \<le> z mod k" "z mod k < k"
    using assms by simp_all
  have e: "z + 1 = (z mod k + 1) + z div k * k"
    by simp
  have d: "(z + 1) div k = (z mod k + 1) div k + z div k"
    using assms by (subst e) (simp only: div_mult_self1 [OF less_imp_neq [THEN not_sym]])
  have m: "(z + 1) mod k = (z mod k + 1) mod k"
    by (simp add: mod_add_left_eq)
  show ?thesis
  proof (cases "z mod k + 1 = k")
    case True
    with assms d m show ?thesis by simp
  next
    case False
    with r have l: "z mod k + 1 < k" by simp
    have n: "z mod k + 1 \<noteq> 0" using r(1) by linarith
    have "(z mod k + 1) div k = 0" "(z mod k + 1) mod k = z mod k + 1"
      using r(1) l by simp_all
    with d m n show ?thesis by simp
  qed
qed

lemma mod_400_100_4:
  fixes y :: int
  shows "y mod 400 = 0 \<Longrightarrow> y mod 100 = 0" and "y mod 100 = 0 \<Longrightarrow> y mod 4 = 0"
proof -
  have d: "(100::int) dvd 400" "(4::int) dvd 100"
    by simp_all
  show "y mod 400 = 0 \<Longrightarrow> y mod 100 = 0"
    using dvd_trans [OF d(1), of y] by (simp add: mod_eq_0_iff_dvd)
  show "y mod 100 = 0 \<Longrightarrow> y mod 4 = 0"
    using dvd_trans [OF d(2), of y] by (simp add: mod_eq_0_iff_dvd)
qed

lemma leap_indicator:
  fixes y :: int
  shows "(if y mod 4 = 0 then 1 else 0) - (if y mod 100 = 0 then 1 else 0)
       + (if y mod 400 = 0 then 1 else 0) = (if is_leap y then 1 else (0::int))"
proof (cases "y mod 100 = 0")
  case True
  then have "y mod 4 = 0" by (rule mod_400_100_4(2))
  with True show ?thesis by (simp add: is_leap_def)
next
  case False
  then have "y mod 400 \<noteq> 0" using mod_400_100_4(1) [of y] by auto
  with False show ?thesis by (simp add: is_leap_def)
qed

lemma days_before_year_step:
  "days_before_year (y + 1) = days_before_year y + (if is_leap y then 366 else 365)"
proof -
  define a b c where "a = (y - 1) div 4" and "b = (y - 1) div 100" and "c = (y - 1) div 400"
  define i4 i100 i400 :: int where "i4 = (if y mod 4 = 0 then 1 else 0)"
    and "i100 = (if y mod 100 = 0 then 1 else 0)" and "i400 = (if y mod 400 = 0 then 1 else 0)"
  have e4: "y div 4 = a + i4"
    unfolding a_def i4_def using div_succ [of 4 "y - 1"] by simp
  have e100: "y div 100 = b + i100"
    unfolding b_def i100_def using div_succ [of 100 "y - 1"] by simp
  have e400: "y div 400 = c + i400"
    unfolding c_def i400_def using div_succ [of 400 "y - 1"] by simp
  have l: "i4 - i100 + i400 = (if is_leap y then 1 else 0)"
    unfolding i4_def i100_def i400_def by (rule leap_indicator)
  have "days_before_year (y + 1) = y * 365 + y div 4 - y div 100 + y div 400"
    by (simp add: days_before_year_def)
  then have s: "days_before_year (y + 1) = y * 365 + (a + i4) - (b + i100) + (c + i400)"
    by (simp only: e4 e100 e400)
  have t: "days_before_year y = (y - 1) * 365 + a - b + c"
    unfolding a_def b_def c_def by (simp add: days_before_year_def Let_def)
  have "days_before_year (y + 1) = days_before_year y + 365 + (i4 - i100 + i400)"
    using s t by (simp only: ) (simp add: algebra_simps)
  then show ?thesis
    by (simp only: l) simp
qed

lemma days_before_year_mono: "y1 \<le> y2 \<Longrightarrow> days_before_year y1 \<le> days_before_year y2"
proof (induction y2 rule: int_ge_induct)
  case base
  then show ?case by simp
next
  case (step i)
  then show ?case
    using days_before_year_step [of i] by (simp split: if_splits)
qed

lemma days_in_year:
  "valid_ymd y m d \<Longrightarrow> days_before_month y m + d \<le> (if is_leap y then 366 else 365)"
  using month_cases [of m]
  by (auto simp: valid_ymd_def days_before_month_def days_in_month_def DAYS_BEFORE_MONTH_def
      DAYS_IN_MONTH_def)

lemma days_before_next_month:
  assumes "1 \<le> m1" and "m1 < m2" and "m2 \<le> 12"
  shows "days_before_month y m1 + days_in_month y m1 \<le> days_before_month y m2"
proof -
  from assms have "m1 \<le> 12" "1 \<le> m2" by simp_all
  from month_cases [OF assms(1) this(1)] month_cases [OF this(2) assms(3)] assms(2)
  show ?thesis
    by (auto simp: days_before_month_def days_in_month_def DAYS_BEFORE_MONTH_def
        DAYS_IN_MONTH_def)
qed

lemma ymd2ord_year_less:
  assumes "valid_ymd y1 m1 d1" and "valid_ymd y2 m2 d2" and "y1 < y2"
  shows "ymd2ord y1 m1 d1 < ymd2ord y2 m2 d2"
proof -
  have "ymd2ord y1 m1 d1 \<le> days_before_year (y1 + 1)"
    using days_in_year [OF assms(1)] days_before_year_step [of y1]
    by (simp add: ymd2ord_def split: if_splits)
  also have "\<dots> \<le> days_before_year y2"
    using assms(3) by (intro days_before_year_mono) simp
  also have "\<dots> < ymd2ord y2 m2 d2"
    using assms(2) days_before_month_nonneg [of m2 y2]
    by (simp add: ymd2ord_def valid_ymd_def)
  finally show ?thesis .
qed

lemma ymd2ord_month_less:
  assumes "valid_ymd y m1 d1" and "valid_ymd y m2 d2" and "m1 < m2"
  shows "ymd2ord y m1 d1 < ymd2ord y m2 d2"
  using days_before_next_month [of m1 m2 y] assms
  by (simp add: ymd2ord_def valid_ymd_def)

lemma ymd2ord_less_iff:
  assumes "valid_ymd y1 m1 d1" and "valid_ymd y2 m2 d2"
  shows "ymd2ord y1 m1 d1 < ymd2ord y2 m2 d2 \<longleftrightarrow>
           y1 < y2 \<or> y1 = y2 \<and> (m1 < m2 \<or> m1 = m2 \<and> d1 < d2)"
proof -
  consider "y1 < y2" | "y2 < y1" | "y1 = y2" "m1 < m2" | "y1 = y2" "m2 < m1"
    | "y1 = y2" "m1 = m2"
    by linarith
  then show ?thesis
  proof cases
    case 1
    with ymd2ord_year_less [OF assms] show ?thesis by simp
  next
    case 2
    with ymd2ord_year_less [OF assms(2,1)] show ?thesis by simp
  next
    case 3
    with ymd2ord_month_less [of y1 m1 d1 m2 d2] assms show ?thesis by simp
  next
    case 4
    with ymd2ord_month_less [of y1 m2 d2 m1 d1] assms show ?thesis by simp
  next
    case 5
    then show ?thesis by (simp add: ymd2ord_def)
  qed
qed

lemma ymd2ord_eq_iff:
  assumes "valid_ymd y1 m1 d1" and "valid_ymd y2 m2 d2"
  shows "ymd2ord y1 m1 d1 = ymd2ord y2 m2 d2 \<longleftrightarrow> y1 = y2 \<and> m1 = m2 \<and> d1 = d2"
  using ymd2ord_less_iff [OF assms] ymd2ord_less_iff [OF assms(2,1)]
  by (metis less_irrefl not_less_iff_gr_or_eq)

section \<open>Dates as text: the order of the texts is the order of the dates\<close>

lemma digit_val_range: "is_digit c \<Longrightarrow> 0 \<le> digit_val c \<and> digit_val c \<le> 9"
  by (simp add: is_digit_def digit_val_def)

lemma char_less_digit_val: "c < c' \<longleftrightarrow> digit_val c < digit_val c'"
  by (simp add: less_char_def digit_val_def)

lemma char_eq_digit_val: "c = c' \<longleftrightarrow> digit_val c = digit_val c'"
  by (auto simp: digit_val_def)

lemma lex_two:
  fixes a b a' b' :: int
  assumes "0 \<le> b" "b \<le> 9" "0 \<le> b'" "b' \<le> 9"
  shows "10 * a + b < 10 * a' + b' \<longleftrightarrow> a < a' \<or> a = a' \<and> b < b'"
    and "10 * a + b = 10 * a' + b' \<longleftrightarrow> a = a' \<and> b = b'"
proof -
  consider "a < a'" | "a = a'" | "a' < a" by linarith
  then show "10 * a + b < 10 * a' + b' \<longleftrightarrow> a < a' \<or> a = a' \<and> b < b'"
  proof cases
    case 1
    with assms show ?thesis by simp
  next
    case 2
    then show ?thesis by simp
  next
    case 3
    with assms show ?thesis by simp
  qed
  consider "a < a'" | "a = a'" | "a' < a" by linarith
  then show "10 * a + b = 10 * a' + b' \<longleftrightarrow> a = a' \<and> b = b'"
  proof cases
    case 1
    with assms show ?thesis by simp
  next
    case 2
    then show ?thesis by simp
  next
    case 3
    with assms show ?thesis by simp
  qed
qed

lemma two_digits_less:
  assumes "is_digit a" "is_digit b" "is_digit a'" "is_digit b'"
  shows "[a, b] < [a', b'] \<longleftrightarrow> digits_val [a, b] < digits_val [a', b']"
    and "[a, b] = [a', b'] \<longleftrightarrow> digits_val [a, b] = digits_val [a', b']"
proof -
  note r = digit_val_range [OF assms(2)] digit_val_range [OF assms(4)]
  have l: "10 * digit_val a + digit_val b < 10 * digit_val a' + digit_val b' \<longleftrightarrow>
      digit_val a < digit_val a' \<or> digit_val a = digit_val a' \<and> digit_val b < digit_val b'"
    using r by (intro lex_two(1)) simp_all
  have e: "10 * digit_val a + digit_val b = 10 * digit_val a' + digit_val b' \<longleftrightarrow>
      digit_val a = digit_val a' \<and> digit_val b = digit_val b'"
    using r by (intro lex_two(2)) simp_all
  have h: "digits_val [a, b] = 10 * digit_val a + digit_val b"
    "digits_val [a', b'] = 10 * digit_val a' + digit_val b'"
    by (simp_all add: digits_val_def)
  show "[a, b] < [a', b'] \<longleftrightarrow> digits_val [a, b] < digits_val [a', b']"
    unfolding h l
    by (simp add: char_less_digit_val char_eq_digit_val [of a a'])
  show "[a, b] = [a', b'] \<longleftrightarrow> digits_val [a, b] = digits_val [a', b']"
    unfolding h e
    by (simp add: char_eq_digit_val [of a a'] char_eq_digit_val [of b b'])
qed

lemma four_digits_less:
  assumes "is_digit a" "is_digit b" "is_digit c" "is_digit d"
    and "is_digit a'" "is_digit b'" "is_digit c'" "is_digit d'"
  shows "[a, b, c, d] < [a', b', c', d']
           \<longleftrightarrow> digits_val [a, b, c, d] < digits_val [a', b', c', d']"
    and "[a, b, c, d] = [a', b', c', d']
           \<longleftrightarrow> digits_val [a, b, c, d] = digits_val [a', b', c', d']"
proof -
  let ?v = digit_val
  note r = digit_val_range [OF assms(2)] digit_val_range [OF assms(3)]
    digit_val_range [OF assms(4)] digit_val_range [OF assms(6)]
    digit_val_range [OF assms(7)] digit_val_range [OF assms(8)]
  note t1 = lex_two [of "?v d" "?v d'" "10 * (10 * ?v a + ?v b) + ?v c"
      "10 * (10 * ?v a' + ?v b') + ?v c'", OF conjunct1 [OF r(3)] conjunct2 [OF r(3)]
      conjunct1 [OF r(6)] conjunct2 [OF r(6)]]
  note t2 = lex_two [of "?v c" "?v c'" "10 * ?v a + ?v b" "10 * ?v a' + ?v b'",
      OF conjunct1 [OF r(2)] conjunct2 [OF r(2)] conjunct1 [OF r(5)] conjunct2 [OF r(5)]]
  note t3 = lex_two [of "?v b" "?v b'" "?v a" "?v a'",
      OF conjunct1 [OF r(1)] conjunct2 [OF r(1)] conjunct1 [OF r(4)] conjunct2 [OF r(4)]]
  have l: "10 * (10 * (10 * ?v a + ?v b) + ?v c) + ?v d
         < 10 * (10 * (10 * ?v a' + ?v b') + ?v c') + ?v d' \<longleftrightarrow>
      ?v a < ?v a' \<or> ?v a = ?v a' \<and> (?v b < ?v b' \<or> ?v b = ?v b' \<and>
        (?v c < ?v c' \<or> ?v c = ?v c' \<and> ?v d < ?v d'))"
    unfolding t1 t2 t3 by blast
  have e: "10 * (10 * (10 * ?v a + ?v b) + ?v c) + ?v d
         = 10 * (10 * (10 * ?v a' + ?v b') + ?v c') + ?v d' \<longleftrightarrow>
      ?v a = ?v a' \<and> ?v b = ?v b' \<and> ?v c = ?v c' \<and> ?v d = ?v d'"
    unfolding t1 t2 t3 by blast
  have h: "digits_val [a, b, c, d] = 10 * (10 * (10 * ?v a + ?v b) + ?v c) + ?v d"
    "digits_val [a', b', c', d'] = 10 * (10 * (10 * ?v a' + ?v b') + ?v c') + ?v d'"
    by (simp_all add: digits_val_def)
  show "[a, b, c, d] < [a', b', c', d']
           \<longleftrightarrow> digits_val [a, b, c, d] < digits_val [a', b', c', d']"
    unfolding h l
    by (simp add: char_less_digit_val char_eq_digit_val [of a a'] char_eq_digit_val [of b b']
        char_eq_digit_val [of c c'])
  show "[a, b, c, d] = [a', b', c', d']
           \<longleftrightarrow> digits_val [a, b, c, d] = digits_val [a', b', c', d']"
    unfolding h e
    by (simp add: char_eq_digit_val [of a a'] char_eq_digit_val [of b b']
        char_eq_digit_val [of c c'] char_eq_digit_val [of d d'])
qed

text \<open>The shape of a text that \<^verbatim>\<open>date.fromisoformat\<close> accepts.\<close>

lemma parse_isoformat_date_Inr:
  assumes "parse_isoformat_date s = Inr n"
  shows "\<exists>y1 y2 y3 y4 m1 m2 d1 d2.
           s = [y1, y2, y3, y4, CHR ''-'', m1, m2, CHR ''-'', d1, d2]
         \<and> is_digit y1 \<and> is_digit y2 \<and> is_digit y3 \<and> is_digit y4
         \<and> is_digit m1 \<and> is_digit m2 \<and> is_digit d1 \<and> is_digit d2
         \<and> valid_ymd (digits_val [y1, y2, y3, y4]) (digits_val [m1, m2]) (digits_val [d1, d2])
         \<and> n = ymd2ord (digits_val [y1, y2, y3, y4]) (digits_val [m1, m2]) (digits_val [d1, d2])"
  using assms unfolding parse_isoformat_date_def Let_def
  by (simp split: list.splits if_splits)

lemma parse_isoformat_date_less_iff:
  assumes "parse_isoformat_date s = Inr n" and "parse_isoformat_date s' = Inr n'"
  shows "s < s' \<longleftrightarrow> n < n'" and "s = s' \<longleftrightarrow> n = n'"
proof -
  from parse_isoformat_date_Inr [OF assms(1)] obtain y1 y2 y3 y4 m1 m2 d1 d2 where
    s: "s = [y1, y2, y3, y4, CHR ''-'', m1, m2, CHR ''-'', d1, d2]" and
    g: "is_digit y1" "is_digit y2" "is_digit y3" "is_digit y4"
       "is_digit m1" "is_digit m2" "is_digit d1" "is_digit d2" and
    v: "valid_ymd (digits_val [y1, y2, y3, y4]) (digits_val [m1, m2]) (digits_val [d1, d2])" and
    n: "n = ymd2ord (digits_val [y1, y2, y3, y4]) (digits_val [m1, m2]) (digits_val [d1, d2])"
    by blast
  from parse_isoformat_date_Inr [OF assms(2)] obtain z1 z2 z3 z4 k1 k2 e1 e2 where
    s': "s' = [z1, z2, z3, z4, CHR ''-'', k1, k2, CHR ''-'', e1, e2]" and
    g': "is_digit z1" "is_digit z2" "is_digit z3" "is_digit z4"
       "is_digit k1" "is_digit k2" "is_digit e1" "is_digit e2" and
    v': "valid_ymd (digits_val [z1, z2, z3, z4]) (digits_val [k1, k2]) (digits_val [e1, e2])" and
    n': "n' = ymd2ord (digits_val [z1, z2, z3, z4]) (digits_val [k1, k2]) (digits_val [e1, e2])"
    by blast
  note y = four_digits_less [OF g(1-4) g'(1-4)]
  note m = two_digits_less [OF g(5,6) g'(5,6)]
  note d = two_digits_less [OF g(7,8) g'(7,8)]
  have "s < s' \<longleftrightarrow> [y1, y2, y3, y4] < [z1, z2, z3, z4]
          \<or> [y1, y2, y3, y4] = [z1, z2, z3, z4]
            \<and> ([m1, m2] < [k1, k2] \<or> [m1, m2] = [k1, k2] \<and> [d1, d2] < [e1, e2])"
    unfolding s s' by (simp only: Cons_less_Cons list.inject) blast
  then show "s < s' \<longleftrightarrow> n < n'"
    unfolding y m d n n' ymd2ord_less_iff [OF v v'] .
  have "s = s' \<longleftrightarrow> [y1, y2, y3, y4] = [z1, z2, z3, z4]
            \<and> [m1, m2] = [k1, k2] \<and> [d1, d2] = [e1, e2]"
    unfolding s s' by (simp only: list.inject) blast
  then show "s = s' \<longleftrightarrow> n = n'"
    unfolding y m d n n' ymd2ord_eq_iff [OF v v'] .
qed

lemma fromisoformat_Inr: "fromisoformat v = Inr n \<Longrightarrow> \<exists>s. v = PyStr s \<and> parse_isoformat_date s = Inr n"
  by (cases v) simp_all

lemma sql_key_le_iff:
  assumes "fromisoformat v = Inr n" and "fromisoformat v' = Inr n'"
  shows "sql_key v \<le> sql_key v' \<longleftrightarrow> n \<le> n'"
proof -
  from fromisoformat_Inr [OF assms(1)] fromisoformat_Inr [OF assms(2)] obtain s s' where
    s: "v = PyStr s" "parse_isoformat_date s = Inr n"
       "v' = PyStr s'" "parse_isoformat_date s' = Inr n'"
    by blast
  from parse_isoformat_date_less_iff [OF s(2,4)] have "s \<le> s' \<longleftrightarrow> n \<le> n'"
    by (simp add: le_less)
  then show ?thesis
    by (simp add: s(1,3))
qed

section \<open>The most recent rows\<close>

lemma sorted_le_last:
  fixes ys :: "'a::linorder list"
  shows "sorted ys \<Longrightarrow> y \<in> set ys \<Longrightarrow> y \<le> last ys"
  by (induction ys) auto

lemma sort_key_last_max:
  assumes "xs \<noteq> []"
  shows "last (sort_key k xs) \<in> set xs \<and> (\<forall>x\<in>set xs. k x \<le> k (last (sort_key k xs)))"
proof -
  let ?ys = "sort_key k xs"
  have ne: "?ys \<noteq> []" using assms by (metis length_0_conv length_sort)
  have a: "last ?ys \<in> set xs"
    using last_in_set [OF ne] by simp
  have "sorted (map k ?ys)" by simp
  moreover have "last (map k ?ys) = k (last ?ys)" using ne by (simp add: last_map)
  ultimately have "\<forall>x\<in>set xs. k x \<le> k (last ?ys)"
    using sorted_le_last [of "map k ?ys"] by auto
  with a show ?thesis by simp
qed

lemma order_by_pubdate_desc_top:
  assumes "rows s \<noteq> []"
  shows "\<exists>r rs. order_by_pubdate_desc s = r # rs \<and> r \<in> set (rows s)
           \<and> (\<forall>r'\<in>set (rows s). sql_key (col_pubdate r') \<le> sql_key (col_pubdate r))"
proof -
  let ?k = "\<lambda>r. sql_key (col_pubdate r)"
  let ?ys = "sort_key ?k (rows s)"
  have ne: "?ys \<noteq> []" using assms by (metis length_0_conv length_sort)
  then have "rev ?ys = last ?ys # rev (butlast ?ys)"
    by (metis append_butlast_last_id rev.simps(2) rev_append rev_rev_ident append_Cons append_Nil
        rev_singleton_conv)
  with sort_key_last_max [OF assms, of ?k] show ?thesis
    unfolding order_by_pubdate_desc_def by blast
qed

lemma order_by_pubdate_desc_sorted:
  "sorted_wrt (\<lambda>r r'. sql_key (col_pubdate r') \<le> sql_key (col_pubdate r)) (order_by_pubdate_desc s)"
proof -
  let ?k = "\<lambda>r. sql_key (col_pubdate r)"
  have "sorted (map ?k (sort_key ?k (rows s)))" by simp
  then have "sorted_wrt (\<lambda>r r'. ?k r \<le> ?k r') (sort_key ?k (rows s))"
    by (simp add: sorted_map)
  then show ?thesis
    unfolding order_by_pubdate_desc_def by (simp add: sorted_wrt_rev)
qed

lemma set_order_by_pubdate_desc [simp]: "set (order_by_pubdate_desc s) = set (rows s)"
  by (simp add: order_by_pubdate_desc_def)

lemma length_order_by_pubdate_desc [simp]: "length (order_by_pubdate_desc s) = length (rows s)"
  by (simp add: order_by_pubdate_desc_def)

text \<open>
  Claim C8.  For an empty table \<^verbatim>\<open>latest_date_in_db\<close> returns no date.  For a table with
  rows whose pubdate cells read as the dates \<open>ds\<close>, it returns the largest of these dates.
\<close>

theorem latest_date_is_maximum:
  "(rows s = [] \<longrightarrow> latest_date_in_db s = Inr None)
   \<and> (rows s \<noteq> [] \<longrightarrow>
        list_all2 (\<lambda>r d. fromisoformat (col_pubdate r) = Inr d) (rows s) ds \<longrightarrow>
        latest_date_in_db s = Inr (Some (Max (set ds))))"
proof (intro conjI impI)
  assume "rows s = []"
  then show "latest_date_in_db s = Inr None"
    by (simp add: latest_date_in_db_None)
next
  assume ne: "rows s \<noteq> []"
    and all: "list_all2 (\<lambda>r d. fromisoformat (col_pubdate r) = Inr d) (rows s) ds"
  from order_by_pubdate_desc_top [OF ne] obtain r rs where
    top: "order_by_pubdate_desc s = r # rs" "r \<in> set (rows s)"
      "\<forall>r'\<in>set (rows s). sql_key (col_pubdate r') \<le> sql_key (col_pubdate r)"
    by blast
  note len = list_all2_lengthD [OF all]
  from top(2) obtain i where i: "i < length (rows s)" "rows s ! i = r"
    by (auto simp: in_set_conv_nth)
  define d where "d = ds ! i"
  have d: "d \<in> set ds" "fromisoformat (col_pubdate r) = Inr d"
    using list_all2_nthD [OF all i(1)] i len by (simp_all add: d_def)
  have "d' \<le> d" if "d' \<in> set ds" for d'
  proof -
    from that obtain j where j: "j < length ds" "ds ! j = d'"
      by (auto simp: in_set_conv_nth)
    define r' where "r' = rows s ! j"
    have r': "r' \<in> set (rows s)" "fromisoformat (col_pubdate r') = Inr d'"
      using list_all2_nthD2 [OF all j(1)] j len by (simp_all add: r'_def)
    with top(3) have "sql_key (col_pubdate r') \<le> sql_key (col_pubdate r)" by simp
    with sql_key_le_iff [OF r'(2) d(2)] show ?thesis by simp
  qed
  with d(1) have "Max (set ds) = d"
    by (intro Max_eqI) simp_all
  with top(1) d(2) show "latest_date_in_db s = Inr (Some (Max (set ds)))"
    by (simp add: latest_date_in_db_eq)
qed


lemma parse_march_2024:
  "parse_isoformat_date ''2024-03-06'' = Inr 738951"
  "parse_isoformat_date ''2024-03-07'' = Inr 738952"
  "parse_isoformat_date ''2024-03-08'' = Inr 738953"
  "parse_isoformat_date ''2024-03-09'' = Inr 738954"
  "parse_isoformat_date ''2024-03-10'' = Inr 738955"
  "parse_isoformat_date ''2024-03-11'' = Inr 738956"
  "parse_isoformat_date ''2024-03-12'' = Inr 738957"
  "parse_isoformat_date ''2024-03-13'' = Inr 738958"
  "parse_isoformat_date ''2024-03-14'' = Inr 738959"
  "parse_isoformat_date ''2024-03-15'' = Inr 738960"
  by (simp_all add: parse_isoformat_date_def is_digit_def digits_val_def digit_val_def
      valid_ymd_def MINYEAR_def MAXYEAR_def days_in_month_def ymd2ord_def days_before_year_def
      days_before_month_def DAYS_BEFORE_MONTH_def DAYS_IN_MONTH_def is_leap_def)

lemma march_db_dates:
  "list_all2 (\<lambda>r d. fromisoformat (col_pubdate r) = Inr d) (rows march_db) [738951..738960]"
  by (simp add: march_db_def list_all2_map1 list_all2_same sample_row_def march_2024
      parse_march_2024)

theorem latest_date_is_maximum_witness:
  "rows empty_db = [] \<and> latest_date_in_db empty_db = Inr None
   \<and> rows march_db \<noteq> []
   \<and> list_all2 (\<lambda>r d. fromisoformat (col_pubdate r) = Inr d) (rows march_db) [738951..738960]
   \<and> latest_date_in_db march_db = Inr (Some 738960)"
proof -
  have e: "rows empty_db = []" by (simp add: empty_db_def)
  have n: "rows march_db \<noteq> []" by (simp add: march_db_def)
  have m: "Max (set [738951..738960]) = (738960::int)" by simp
  from latest_date_is_maximum [of empty_db] e
    latest_date_is_maximum [of march_db "[738951..738960]"] n march_db_dates m
  show ?thesis by simp
qed

section \<open>The feed\<close>

lemma readable_Inr:
  assumes "readable r"
  shows "\<exists>c. DilbertComic_row r = Inr c \<and> fromisoformat (col_pubdate r) = Inr (pubdate c)
           \<and> filename c = col_filename r"
  using assms
  by (auto simp: readable_def DilbertComic_row_def fix_empty_title_def split: sum.splits)

lemma comics_loop_readable:
  "list_all readable rs \<Longrightarrow>
     comics_loop rs cs = Inr (cs @ map (\<lambda>r. projr (DilbertComic_row r)) rs)"
proof (induction rs arbitrary: cs)
  case Nil
  then show ?case by simp
next
  case (Cons r rs)
  from Cons.prems obtain c where "DilbertComic_row r = Inr c"
    using readable_Inr [of r] by auto
  with Cons show ?case by simp
qed

text \<open>
  Claim C6.  For a table of at least ten rows, all of which can be read back, the feed is
  built and has exactly ten entries, in descending order of pubdate; they are the entries
  of the first ten rows in descending order of pubdate, one for one: the pubdate of the
  entry is that of the row, and its description starts with an image tag whose \<^verbatim>\<open>src\<close> is
  the base URL, a slash and the filename of the row.
\<close>

theorem feed_has_ten_latest_entries:
  assumes "10 \<le> length (rows s)" and "list_all readable (rows s)"
  shows \<open>\<exists>f. feed baseurl s = Inr f
           \<and> length (items f) = 10
           \<and> sorted_wrt (\<lambda>e e'. dt_date (item_pubdate e) \<ge> dt_date (item_pubdate e')) (items f)
           \<and> list_all2 (\<lambda>e r. fromisoformat (col_pubdate r) = Inr (dt_date (item_pubdate e))
                              \<and> prefix (''<img src="'' @ baseurl @ ''/'' @ str (col_filename r) @ ''"'')
                                   (description e))
                (items f) (take 10 (order_by_pubdate_desc s))
           \<and> set (take 10 (order_by_pubdate_desc s)) \<subseteq> set (rows s)\<close>
proof -
  let ?top = "take 10 (order_by_pubdate_desc s)"
  let ?c = "\<lambda>r. projr (DilbertComic_row r)"
  have sub: "set ?top \<subseteq> set (rows s)"
    using set_take_subset [of 10 "order_by_pubdate_desc s"] by simp
  with assms(2) have rd: "list_all readable ?top"
    by (auto simp: list_all_iff)
  have c: "fromisoformat (col_pubdate r) = Inr (pubdate (?c r)) \<and> filename (?c r) = col_filename r"
    if "r \<in> set ?top" for r
    using readable_Inr [of r] rd that by (auto simp: list_all_iff)
  have cm: "comics 10 s = Inr (map ?c ?top)"
    using comics_loop_readable [OF rd, of "[]"] by (simp add: comics_def sql_limit_def)
  define f where "f = \<lparr>feed_title = ''De dagelijke Dilbert'',
               feed_link = ''http://dilbert.com/'',
               feed_url = baseurl @ ''/'' @ ''dilbert.rss'',
               feed_description = ''Daily dilbert in a nice feed'',
               language = ''en'',
               items = map (add_item baseurl) (map ?c ?top)\<rparr>"
  have fd: "feed baseurl s = Inr f"
    by (simp add: feed_def cm f_def)
  have len: "length (items f) = 10"
    using assms(1) by (simp add: f_def)
  have "sorted_wrt (\<lambda>r r'. sql_key (col_pubdate r') \<le> sql_key (col_pubdate r)) ?top"
    using order_by_pubdate_desc_sorted [of s] by (rule sorted_wrt_take)
  then have "sorted_wrt (\<lambda>r r'. pubdate (?c r') \<le> pubdate (?c r)) ?top"
  proof (rule sorted_wrt_mono_rel [rotated])
    fix r r' assume "r \<in> set ?top" "r' \<in> set ?top"
      and "sql_key (col_pubdate r') \<le> sql_key (col_pubdate r)"
    with sql_key_le_iff [of "col_pubdate r'" "pubdate (?c r')" "col_pubdate r" "pubdate (?c r)"]
      c [of r] c [of r']
    show "pubdate (?c r') \<le> pubdate (?c r)" by simp
  qed
  then have srt: "sorted_wrt (\<lambda>e e'. dt_date (item_pubdate e) \<ge> dt_date (item_pubdate e'))
      (items f)"
    by (simp add: f_def sorted_wrt_map add_item_def combine_min_time_def)
  have \<open>list_all2 (\<lambda>e r. fromisoformat (col_pubdate r) = Inr (dt_date (item_pubdate e))
                              \<and> prefix (''<img src="'' @ baseurl @ ''/'' @ str (col_filename r) @ ''"'')
                                   (description e))
                (items f) ?top\<close>
    using c unfolding f_def
    by (simp add: list_all2_map1 list_all2_same add_item_def combine_min_time_def tag_def Let_def)
  with fd len srt sub show ?thesis
    by blast
qed


lemma parse_time_sample: "parse_isoformat_time ''06:00:00.000'' = Inr (6, 0, 0, 0)"
  by (simp add: parse_isoformat_time_def Let_def is_digit_def digits_val_def digit_val_def)

lemma march_db_readable: "list_all readable (rows march_db)"
  by (simp add: march_db_def sample_row_def readable_def DilbertComic_row_def march_2024
      parse_march_2024 parse_time_sample)

theorem feed_has_ten_latest_entries_witness:
  \<open>10 \<le> length (rows march_db) \<and> list_all readable (rows march_db)
   \<and> (\<exists>f. feed ''http://localhost'' march_db = Inr f
          \<and> length (items f) = 10
          \<and> sorted_wrt (\<lambda>e e'. dt_date (item_pubdate e) \<ge> dt_date (item_pubdate e')) (items f)
          \<and> list_all2 (\<lambda>e r. fromisoformat (col_pubdate r) = Inr (dt_date (item_pubdate e))
                \<and> prefix (''<img src="'' @ ''http://localhost'' @ ''/'' @ str (col_filename r) @ ''"'')
                     (description e))
               (items f) (take 10 (order_by_pubdate_desc march_db)))\<close>
proof -
  have h1: "10 \<le> length (rows march_db)"
    by (simp add: march_db_def)
  from feed_has_ten_latest_entries [OF h1 march_db_readable, of "''http://localhost''"]
    h1 march_db_readable
  show ?thesis by blast
qed

section \<open>The calendar: from the ordinal to the day and back\<close>

lemma div_mod_small:
  fixes k t s :: int
  assumes "0 \<le> s" and "s < k"
  shows "(k * t + s) div k = t" and "(k * t + s) mod k = s"
  using assms by simp_all

lemma days_before_year_cycles:
  assumes "0 \<le> b" "b \<le> 3" "0 \<le> c" "c \<le> 24" "0 \<le> e" "e \<le> 3"
  shows "days_before_year (400 * a + 100 * b + 4 * c + e + 1)
           = 146097 * a + 36524 * b + 1461 * c + 365 * e"
proof -
  let ?z = "400 * a + 100 * b + 4 * c + e"
  have "?z = 4 * (100 * a + 25 * b + c) + e" by simp
  then have d4: "?z div 4 = 100 * a + 25 * b + c"
    using div_mod_small(1) [of e 4 "100 * a + 25 * b + c"] assms by simp
  have "?z = 100 * (4 * a + b) + (4 * c + e)" by simp
  then have d100: "?z div 100 = 4 * a + b"
    using div_mod_small(1) [of "4 * c + e" 100 "4 * a + b"] assms by simp
  have d400: "?z div 400 = a"
    using div_mod_small(1) [of "100 * b + 4 * c + e" 400 a] assms by (simp add: add.assoc)
  have "days_before_year (?z + 1) = ?z * 365 + ?z div 4 - ?z div 100 + ?z div 400"
    by (simp add: days_before_year_def Let_def)
  then show ?thesis
    unfolding d4 d100 d400 by simp
qed

lemma is_leap_cycles:
  assumes "0 \<le> b" "b \<le> 3" "0 \<le> c" "c \<le> 24" "0 \<le> e" "e \<le> 3"
  shows "is_leap (400 * a + 100 * b + 4 * c + e + 1) \<longleftrightarrow> e = 3 \<and> (c \<noteq> 24 \<or> b = 3)"
proof -
  let ?y = "400 * a + 100 * b + 4 * c + e + 1"
  have m4: "?y mod 4 = 0 \<longleftrightarrow> e = 3"
  proof (cases "e = 3")
    case True
    then have "?y = 4 * (100 * a + 25 * b + c + 1)" by simp
    then have "?y mod 4 = 0" by (simp only: mod_mult_self1_is_0)
    with True show ?thesis by simp
  next
    case False
    have "?y = 4 * (100 * a + 25 * b + c) + (e + 1)" by simp
    then have "?y mod 4 = (4 * (100 * a + 25 * b + c) + (e + 1)) mod 4" by (simp only:)
    also have "\<dots> = e + 1"
      using assms False by (intro div_mod_small(2)) simp_all
    finally have "?y mod 4 = e + 1" .
    with assms False show ?thesis by simp
  qed
  have m100: "?y mod 100 = 0 \<longleftrightarrow> e = 3 \<and> c = 24"
  proof (cases "e = 3 \<and> c = 24")
    case True
    then have "?y = 100 * (4 * a + b + 1)" by simp
    then have "?y mod 100 = 0" by (simp only: mod_mult_self1_is_0)
    with True show ?thesis by simp
  next
    case False
    have "?y = 100 * (4 * a + b) + (4 * c + e + 1)" by simp
    moreover have "4 * c + e + 1 < 100" "0 \<le> 4 * c + e + 1" using assms False by linarith+
    ultimately have "?y mod 100 = 4 * c + e + 1"
      using assms by (simp only: div_mod_small(2))
    with assms False show ?thesis by simp
  qed
  have m400: "?y mod 400 = 0 \<longleftrightarrow> e = 3 \<and> c = 24 \<and> b = 3"
  proof (cases "e = 3 \<and> c = 24 \<and> b = 3")
    case True
    then have "?y = 400 * (a + 1)" by simp
    then have "?y mod 400 = 0" by (simp only: mod_mult_self1_is_0)
    with True show ?thesis by simp
  next
    case False
    have "?y = 400 * a + (100 * b + 4 * c + e + 1)" by simp
    moreover have "100 * b + 4 * c + e + 1 < 400" "0 \<le> 100 * b + 4 * c + e + 1"
      using assms False by linarith+
    ultimately have "?y mod 400 = 100 * b + 4 * c + e + 1"
      using assms by (simp only: div_mod_small(2))
    with assms False show ?thesis by simp
  qed
  show ?thesis
    unfolding is_leap_def m4 m100 m400 by blast
qed


lemma ord2md_correct:
  assumes "0 \<le> r" and "r \<le> 364" and "ord2md L r = (m, d)"
  shows "1 \<le> m \<and> m \<le> 12 \<and> 1 \<le> d
       \<and> d \<le> (if m = 2 \<and> L then 29 else DAYS_IN_MONTH ! nat m)
       \<and> DAYS_BEFORE_MONTH ! nat m + (if m > 2 \<and> L then 1 else 0) + d = r + 1"
proof -
  define k where "k = (r + 50) div 32"
  have "r + 50 = 32 * k + (r + 50) mod 32"
    by (simp add: k_def)
  moreover have "0 \<le> (r + 50) mod 32" "(r + 50) mod 32 < 32"
    by simp_all
  ultimately have kb: "32 * k \<le> r + 50" "r + 50 < 32 * k + 32"
    by linarith+
  with assms(1,2) have "1 \<le> k" "k \<le> 12"
    by linarith+
  then have kc: "k = 1 \<or> k = 2 \<or> k = 3 \<or> k = 4 \<or> k = 5 \<or> k = 6 \<or> k = 7 \<or> k = 8 \<or> k = 9
      \<or> k = 10 \<or> k = 11 \<or> k = 12"
    by (rule month_cases)
  define p where "p = DAYS_BEFORE_MONTH ! nat k + (if k > 2 \<and> L then 1 else 0)"
  have e: "(m, d) = (if p > r
              then (k - 1, r - (p - (DAYS_IN_MONTH ! nat (k - 1)
                                      + (if k - 1 = 2 \<and> L then 1 else 0))) + 1)
              else (k, r - p + 1))"
    using assms(3) unfolding ord2md_def Let_def k_def p_def by (rule sym)
  from kc show ?thesis
  proof (elim disjE)
    assume "k = 1"
    with e kb assms(1,2) show ?thesis
      by (auto simp: p_def DAYS_BEFORE_MONTH_def DAYS_IN_MONTH_def split: if_splits)
  next
    assume "k = 2"
    with e kb assms(1,2) show ?thesis
      by (auto simp: p_def DAYS_BEFORE_MONTH_def DAYS_IN_MONTH_def split: if_splits)
  next
    assume "k = 3"
    with e kb assms(1,2) show ?thesis
      by (auto simp: p_def DAYS_BEFORE_MONTH_def DAYS_IN_MONTH_def split: if_splits)
  next
    assume "k = 4"
    with e kb assms(1,2) show ?thesis
      by (auto simp: p_def DAYS_BEFORE_MONTH_def DAYS_IN_MONTH_def split: if_splits)
  next
    assume "k = 5"
    with e kb assms(1,2) show ?thesis
      by (auto simp: p_def DAYS_BEFORE_MONTH_def DAYS_IN_MONTH_def split: if_splits)
  next
    assume "k = 6"
    with e kb assms(1,2) show ?thesis
      by (auto simp: p_def DAYS_BEFORE_MONTH_def DAYS_IN_MONTH_def split: if_splits)
  next
    assume "k = 7"
    with e kb assms(1,2) show ?thesis
      by (auto simp: p_def DAYS_BEFORE_MONTH_def DAYS_IN_MONTH_def split: if_splits)
  next
    assume "k = 8"
    with e kb assms(1,2) show ?thesis
      by (auto simp: p_def DAYS_BEFORE_MONTH_def DAYS_IN_MONTH_def split: if_splits)
  next
    assume "k = 9"
    with e kb assms(1,2) show ?thesis
      by (auto simp: p_def DAYS_BEFORE_MONTH_def DAYS_IN_MONTH_def split: if_splits)
  next
    assume "k = 10"
    with e kb assms(1,2) show ?thesis
      by (auto simp: p_def DAYS_BEFORE_MONTH_def DAYS_IN_MONTH_def split: if_splits)
  next
    assume "k = 11"
    with e kb assms(1,2) show ?thesis
      by (auto simp: p_def DAYS_BEFORE_MONTH_def DAYS_IN_MONTH_def split: if_splits)
  next
    assume "k = 12"
    with e kb assms(1,2) show ?thesis
      by (auto simp: p_def DAYS_BEFORE_MONTH_def DAYS_IN_MONTH_def split: if_splits)
  qed
qed


lemma days_before_year_10000: "days_before_year 10000 = 3652059"
  by (simp add: days_before_year_def Let_def)

lemma year_le_MAXYEAR:
  assumes "days_before_year y < 3652059"
  shows "y \<le> 9999"
proof (rule ccontr)
  assume "\<not> y \<le> 9999"
  then have "10000 \<le> y" by simp
  from days_before_year_mono [OF this] assms show False
    by (simp add: days_before_year_10000)
qed

lemma ord2ymd_correct:
  assumes "valid_date n" and "ord2ymd n = (y, m, d)"
  shows "valid_ymd y m d \<and> ymd2ord y m d = n"
proof -
  define q400 where "q400 = (n - 1) div DI400Y"
  define r400 where "r400 = (n - 1) mod DI400Y"
  define q100 where "q100 = r400 div DI100Y"
  define r100 where "r100 = r400 mod DI100Y"
  define q4 where "q4 = r100 div DI4Y"
  define r4 where "r4 = r100 mod DI4Y"
  define q1 where "q1 = r4 div 365"
  define r1 where "r1 = r4 mod 365"
  define L where "L = (q1 = 3 \<and> (q4 \<noteq> 24 \<or> q100 = 3))"
  have e: "(y, m, d) =
      (if q1 = 4 \<or> q100 = 4 then (q400 * 400 + 1 + q100 * 100 + q4 * 4 + q1 - 1, 12, 31)
       else case ord2md L r1 of
              (month, day) \<Rightarrow> (q400 * 400 + 1 + q100 * 100 + q4 * 4 + q1, month, day))"
    using assms(2)
    unfolding ord2ymd_def Let_def L_def q1_def r1_def q4_def r4_def q100_def r100_def
      q400_def r400_def
    by (rule sym)
  have n: "1 \<le> n" "n \<le> 3652059"
    using assms(1) by (simp_all add: valid_date_def MAXORDINAL_def)
  have d400: "n - 1 = 146097 * q400 + r400" "0 \<le> r400" "r400 < 146097"
    by (simp_all add: q400_def r400_def DI400Y_def)
  have d100: "r400 = 36524 * q100 + r100" "0 \<le> r100" "r100 < 36524"
    by (simp_all add: q100_def r100_def DI100Y_def)
  have d4: "r100 = 1461 * q4 + r4" "0 \<le> r4" "r4 < 1461"
    by (simp_all add: q4_def r4_def DI4Y_def)
  have d1: "r4 = 365 * q1 + r1" "0 \<le> r1" "r1 < 365"
    by (simp_all add: q1_def r1_def)
  have b400: "0 \<le> q400" using d400 n by linarith
  have b100: "0 \<le> q100" "q100 \<le> 4" using d100 d400 by linarith+
  have b4: "0 \<le> q4" "q4 \<le> 24" using d4 d100 by linarith+
  have b1: "0 \<le> q1" "q1 \<le> 4" using d1 d4 by linarith+
  consider (century) "q100 = 4" | (cycle) "q100 \<le> 3" "q1 = 4" | (day) "q100 \<le> 3" "q1 \<le> 3"
    using b100 b1 by linarith
  then show ?thesis
  proof cases
    case century
    then have z: "r100 = 0" using d100 d400 by linarith
    then have "q4 = 0" using d4 by linarith
    with z have z4: "q4 = 0" "r4 = 0" using d4 by linarith+
    then have "q1 = 0" using d1 by linarith
    with z4 have z1: "q1 = 0" "r1 = 0" using d1 by linarith+
    from e century z4 z1 have ymd: "y = 400 * q400 + 100 * 3 + 4 * 24 + 3 + 1" "m = 12" "d = 31"
      by simp_all
    have dby: "days_before_year y = 146097 * q400 + 145731"
      unfolding ymd(1) by (subst days_before_year_cycles) simp_all
    have leap: "is_leap y"
      unfolding ymd(1) by (subst is_leap_cycles) simp_all
    have nn: "n - 1 = 146097 * q400 + 146096"
      using d400 d100 century z by linarith
    have "y \<le> 9999"
      using dby nn n by (intro year_le_MAXYEAR) linarith
    moreover have "1 \<le> y" using ymd(1) b400 by linarith
    ultimately have "valid_ymd y m d"
      by (simp add: valid_ymd_def ymd(2,3) MINYEAR_def MAXYEAR_def days_in_month_def
          DAYS_IN_MONTH_def)
    moreover have "ymd2ord y m d = n"
      using dby nn leap
      by (simp add: ymd2ord_def ymd(2,3) days_before_month_def DAYS_BEFORE_MONTH_def)
    ultimately show ?thesis by simp
  next
    case cycle
    then have z1: "r1 = 0" "r4 = 1460" using d1 d4 by linarith+
    then have q4: "q4 \<le> 23" using d4 d100 by linarith
    from e cycle have ymd: "y = 400 * q400 + 100 * q100 + 4 * q4 + 3 + 1" "m = 12" "d = 31"
      by simp_all
    have dby: "days_before_year y = 146097 * q400 + 36524 * q100 + 1461 * q4 + 365 * 3"
      unfolding ymd(1) using b100 cycle b4 by (intro days_before_year_cycles) simp_all
    have leap: "is_leap y"
      unfolding ymd(1) using b100 cycle b4 q4 by (subst is_leap_cycles) simp_all
    have nn: "n - 1 = 146097 * q400 + 36524 * q100 + 1461 * q4 + 1460"
      using d400 d100 d4 z1 by linarith
    have "y \<le> 9999"
      using dby nn n by (intro year_le_MAXYEAR) linarith
    moreover have "1 \<le> y" using ymd(1) b400 b100 b4 by linarith
    ultimately have "valid_ymd y m d"
      by (simp add: valid_ymd_def ymd(2,3) MINYEAR_def MAXYEAR_def days_in_month_def
          DAYS_IN_MONTH_def)
    moreover have "ymd2ord y m d = n"
      using dby nn leap
      by (simp add: ymd2ord_def ymd(2,3) days_before_month_def DAYS_BEFORE_MONTH_def)
    ultimately show ?thesis by simp
  next
    case day
    obtain mm dd where md: "ord2md L r1 = (mm, dd)"
      by (cases "ord2md L r1")
    from e day md have ymd: "y = 400 * q400 + 100 * q100 + 4 * q4 + q1 + 1" "m = mm" "d = dd"
      by simp_all
    have r: "r1 \<le> 364" using d1 by linarith
    note c = ord2md_correct [OF d1(2) r md]
    have dby: "days_before_year y = 146097 * q400 + 36524 * q100 + 1461 * q4 + 365 * q1"
      unfolding ymd(1) using b100 day b4 b1 by (intro days_before_year_cycles) simp_all
    have leap: "is_leap y \<longleftrightarrow> L"
      unfolding ymd(1) L_def using b100 day b4 b1 by (intro is_leap_cycles) simp_all
    have nn: "n - 1 = 146097 * q400 + 36524 * q100 + 1461 * q4 + 365 * q1 + r1"
      using d400 d100 d4 d1 by linarith
    have "y \<le> 9999"
      using dby nn n d1(2) by (intro year_le_MAXYEAR) linarith
    moreover have "1 \<le> y" using ymd(1) b400 b100 b4 b1 by linarith
    ultimately have "valid_ymd y m d"
      using c by (simp add: valid_ymd_def ymd(2,3) MINYEAR_def MAXYEAR_def days_in_month_def leap)
    moreover have "ymd2ord y m d = n"
      using dby nn c by (simp add: ymd2ord_def ymd(2,3) days_before_month_def leap)
    ultimately show ?thesis by simp
  qed
qed


section \<open>Writing a date and reading it back\<close>

lemma digit_char_digit:
  assumes "k < 10"
  shows "is_digit (digit_char k)" and "digit_val (digit_char k) = int k"
  using assms by (simp_all add: is_digit_def digit_val_def digit_char_def)

lemma digits_val_two:
  assumes "k < 100"
  shows "digits_val [digit_char (k div 10), digit_char (k mod 10)] = int k"
    and "list_all is_digit [digit_char (k div 10), digit_char (k mod 10)]"
proof -
  have b: "k div 10 < 10" "k mod 10 < 10" using assms by simp_all
  have "k = 10 * (k div 10) + k mod 10" by simp
  then have "int k = 10 * int (k div 10) + int (k mod 10)" by linarith
  with b show "digits_val [digit_char (k div 10), digit_char (k mod 10)] = int k"
    by (simp add: digits_val_def digit_char_digit)
  from b show "list_all is_digit [digit_char (k div 10), digit_char (k mod 10)]"
    by (simp add: digit_char_digit)
qed

lemma digits_val_four:
  assumes "k < 10000"
  shows "digits_val [digit_char (k div 1000), digit_char (k div 100 mod 10),
                     digit_char (k div 10 mod 10), digit_char (k mod 10)] = int k"
    and "list_all is_digit [digit_char (k div 1000), digit_char (k div 100 mod 10),
                     digit_char (k div 10 mod 10), digit_char (k mod 10)]"
proof -
  have b: "k div 1000 < 10" "k div 100 mod 10 < 10" "k div 10 mod 10 < 10" "k mod 10 < 10"
    using assms by simp_all
  have "k div 10 div 10 = k div 100" "k div 100 div 10 = k div 1000"
    by (simp_all add: div_mult2_eq [symmetric])
  then have "k div 100 = 10 * (k div 1000) + k div 100 mod 10"
    "k div 10 = 10 * (k div 100) + k div 10 mod 10"
    "k = 10 * (k div 10) + k mod 10"
    by (metis mult_div_mod_eq)+
  then have "int (k div 100) = int (10 * (k div 1000) + k div 100 mod 10)"
    "int (k div 10) = int (10 * (k div 100) + k div 10 mod 10)"
    "int k = int (10 * (k div 10) + k mod 10)"
    by (simp_all only:)
  then have "int (k div 100) = 10 * int (k div 1000) + int (k div 100 mod 10)"
    "int (k div 10) = 10 * int (k div 100) + int (k div 10 mod 10)"
    "int k = 10 * int (k div 10) + int (k mod 10)"
    by (simp_all only: of_nat_add of_nat_mult of_nat_numeral)
  then have "int k = 10 * (10 * (10 * int (k div 1000) + int (k div 100 mod 10))
                 + int (k div 10 mod 10)) + int (k mod 10)"
    by (simp only:)
  with b show "digits_val [digit_char (k div 1000), digit_char (k div 100 mod 10),
                     digit_char (k div 10 mod 10), digit_char (k mod 10)] = int k"
    by (simp add: digits_val_def digit_char_digit)
  from b show "list_all is_digit [digit_char (k div 1000), digit_char (k div 100 mod 10),
                     digit_char (k div 10 mod 10), digit_char (k mod 10)]"
    by (simp add: digit_char_digit)
qed

lemma days_in_month_le_31: "1 \<le> m \<Longrightarrow> m \<le> 12 \<Longrightarrow> days_in_month y m \<le> 31"
  using month_cases [of m] by (auto simp: days_in_month_def DAYS_IN_MONTH_def)

lemma parse_isoformat_date_isoformat:
  assumes "valid_date n"
  shows "parse_isoformat_date (isoformat n) = Inr n"
proof -
  obtain y m d where o: "ord2ymd n = (y, m, d)"
    by (cases "ord2ymd n") auto
  from ord2ymd_correct [OF assms o] have v: "valid_ymd y m d" and n: "ymd2ord y m d = n"
    by simp_all
  from v have b: "1 \<le> y" "y \<le> 9999" "1 \<le> m" "m \<le> 12" "1 \<le> d" "d \<le> 31"
    using days_in_month_le_31 [of m y]
    by (simp_all add: valid_ymd_def MINYEAR_def MAXYEAR_def)
  then have i: "isoformat n =
     [digit_char (nat y div 1000), digit_char (nat y div 100 mod 10),
      digit_char (nat y div 10 mod 10), digit_char (nat y mod 10), CHR ''-'',
      digit_char (nat m div 10), digit_char (nat m mod 10), CHR ''-'',
      digit_char (nat d div 10), digit_char (nat d mod 10)]"
    by (intro isoformat_digits [OF o]) simp_all
  have y: "nat y < 10000" and m: "nat m < 100" and d: "nat d < 100"
    using b by simp_all
  note dy = digits_val_four [OF y] and dm = digits_val_two [OF m] and dd = digits_val_two [OF d]
  have g: "list_all is_digit
      [digit_char (nat y div 1000), digit_char (nat y div 100 mod 10),
       digit_char (nat y div 10 mod 10), digit_char (nat y mod 10),
       digit_char (nat m div 10), digit_char (nat m mod 10),
       digit_char (nat d div 10), digit_char (nat d mod 10)]"
    using dy(2) dm(2) dd(2) by simp
  show ?thesis
    unfolding i parse_isoformat_date_def
    using b v n by (simp only: list.case g dy(1) dm(1) dd(1) Let_def) simp
qed

lemma ymd2ord_le_MAXORDINAL:
  assumes "valid_ymd y m d"
  shows "ymd2ord y m d \<le> MAXORDINAL"
proof -
  have "ymd2ord y m d \<le> days_before_year (y + 1)"
    using days_in_year [OF assms] days_before_year_step [of y]
    by (simp add: ymd2ord_def split: if_splits)
  also have "\<dots> \<le> days_before_year 10000"
    using assms by (intro days_before_year_mono) (simp add: valid_ymd_def MAXYEAR_def)
  finally show ?thesis
    by (simp add: days_before_year_10000 MAXORDINAL_def)
qed

lemma parse_isoformat_date_valid: "parse_isoformat_date s = Inr n \<Longrightarrow> valid_date n"
  using parse_isoformat_date_Inr [of s n] parse_isoformat_date_pos [of s n]
  by (auto simp: valid_date_def ymd2ord_le_MAXORDINAL)

text \<open>The only text that reads as a date is the text written for it.\<close>

lemma parse_isoformat_date_unique:
  assumes "parse_isoformat_date s = Inr n"
  shows "s = isoformat n"
  using parse_isoformat_date_less_iff(2) [OF assms
      parse_isoformat_date_isoformat [OF parse_isoformat_date_valid [OF assms]]]
  by simp

lemma isoformat_less_iff:
  assumes "valid_date n" and "valid_date n'"
  shows "isoformat n < isoformat n' \<longleftrightarrow> n < n'" and "isoformat n = isoformat n' \<longleftrightarrow> n = n'"
  using parse_isoformat_date_less_iff [OF parse_isoformat_date_isoformat [OF assms(1)]
      parse_isoformat_date_isoformat [OF assms(2)]]
  by simp_all

section \<open>A second run\<close>

lemma sql_key_inj: "sql_key v = sql_key w \<Longrightarrow> v = w"
  by (cases v; cases w) simp_all

lemma sql_key_PyStr_le [simp]: "sql_key (PyStr a) \<le> sql_key (PyStr b) \<longleftrightarrow> a \<le> b"
  by simp

text \<open>When one cell is the largest pubdate of the table, the latest date is read from it.\<close>

lemma latest_date_in_db_max_cell:
  assumes "v \<in> set (map col_pubdate (rows s))"
    and "\<forall>w\<in>set (map col_pubdate (rows s)). sql_key w \<le> sql_key v"
  shows "latest_date_in_db s
           = (case fromisoformat v of Inl e \<Rightarrow> Inl e | Inr d \<Rightarrow> Inr (Some d))"
proof -
  from assms(1) have "rows s \<noteq> []" by auto
  from order_by_pubdate_desc_top [OF this] obtain r rs where
    top: "order_by_pubdate_desc s = r # rs" "r \<in> set (rows s)"
      "\<forall>r'\<in>set (rows s). sql_key (col_pubdate r') \<le> sql_key (col_pubdate r)"
    by blast
  from assms(1) top(3) have "sql_key v \<le> sql_key (col_pubdate r)" by auto
  moreover from assms(2) top(2) have "sql_key (col_pubdate r) \<le> sql_key v" by auto
  ultimately have "col_pubdate r = v"
    by (intro sql_key_inj) simp
  with top(1) show ?thesis
    by (simp add: latest_date_in_db_eq)
qed

text \<open>Every pubdate of a table is at most the text of its latest date.\<close>

lemma latest_date_in_db_bound:
  assumes "latest_date_in_db s = Inr (Some L)"
  shows "valid_date L \<and> (\<forall>w\<in>set (map col_pubdate (rows s)). sql_key w \<le> sql_key (PyStr (isoformat L)))"
proof -
  from assms have "rows s \<noteq> []"
    using latest_date_in_db_None [of s] by auto
  from order_by_pubdate_desc_top [OF this] obtain r rs where
    top: "order_by_pubdate_desc s = r # rs"
      "\<forall>r'\<in>set (rows s). sql_key (col_pubdate r') \<le> sql_key (col_pubdate r)"
    by blast
  from assms top(1) have "fromisoformat (col_pubdate r) = Inr L"
    by (simp add: latest_date_in_db_eq split: sum.splits)
  from fromisoformat_Inr [OF this] obtain t where
    t: "col_pubdate r = PyStr t" "parse_isoformat_date t = Inr L"
    by blast
  from parse_isoformat_date_unique [OF t(2)] parse_isoformat_date_valid [OF t(2)] t(1) top(2)
  show ?thesis by auto
qed

lemma latest_date_in_db_after_run:
  assumes "map col_pubdate (rows s1) = old @ map (\<lambda>d. PyStr (isoformat d)) [a..today]"
    and "1 \<le> a" and "a \<le> today" and "valid_date today"
    and "\<forall>w\<in>set old. sql_key w \<le> sql_key (PyStr (isoformat today))"
  shows "latest_date_in_db s1 = Inr (Some today)"
proof -
  let ?v = "PyStr (isoformat today)"
  have "today \<in> set [a..today]" using assms(3) by simp
  then have "?v \<in> set (map col_pubdate (rows s1))"
    unfolding assms(1) by (simp del: set_upto)
  moreover have "\<forall>w\<in>set (map col_pubdate (rows s1)). sql_key w \<le> sql_key ?v"
    unfolding assms(1)
  proof
    fix w assume "w \<in> set (old @ map (\<lambda>d. PyStr (isoformat d)) [a..today])"
    then consider "w \<in> set old" | d where "a \<le> d" "d \<le> today" "w = PyStr (isoformat d)"
      by auto
    then show "sql_key w \<le> sql_key ?v"
    proof cases
      case 1
      with assms(5) show ?thesis by simp
    next
      case 2
      then have "valid_date d"
        using assms(2,4) by (simp add: valid_date_def)
      from isoformat_less_iff [OF this assms(4)] 2 show ?thesis
        by (simp add: le_less)
    qed
  qed
  ultimately have "latest_date_in_db s1
           = (case fromisoformat ?v of Inl e \<Rightarrow> Inl e | Inr d \<Rightarrow> Inr (Some d))"
    by (rule latest_date_in_db_max_cell)
  then show ?thesis
    by (simp add: parse_isoformat_date_isoformat [OF assms(4)])
qed

text \<open>After a run that returned, the table holds a date that is today or later.\<close>

lemma latest_date_in_db_after_update:
  assumes "valid_date today" and "update env today st = (Inr (), st1)"
  shows "\<exists>L. latest_date_in_db (db st1) = Inr (Some L) \<and> today \<le> L \<and> L < MAXORDINAL + 1
           \<and> (L = MAXORDINAL \<longrightarrow> today = MAXORDINAL)"
proof (cases "latest_date_in_db (db st)")
  case (Inl e)
  with assms(2) show ?thesis by (simp add: update_def)
next
  case (Inr latest)
  show ?thesis
  proof (cases latest)
    case None
    with Inr have l: "latest_date_in_db (db st) = Inr None" by simp
    with assms(2) have t: "10 < today"
      by (auto simp: update_def date_add_def valid_date_def split: if_splits)
    have r: "rows (db st) = []"
      using l by (simp add: latest_date_in_db_None)
    from assms(2) update_empty_table [OF l assms(1) t, of env]
    have "update_loop env [today - 9..today] st = (Inr (), st1)" by simp
    from update_loop_success [OF this] r
    have "map col_pubdate (rows (db st1)) = [] @ map (\<lambda>d. PyStr (isoformat d)) [today - 9..today]"
      by auto
    from latest_date_in_db_after_run [OF this _ _ assms(1)] t
    have "latest_date_in_db (db st1) = Inr (Some today)" by simp
    with assms(1) show ?thesis
      by (simp add: valid_date_def)
  next
    case (Some L)
    with Inr have l: "latest_date_in_db (db st) = Inr (Some L)" by simp
    note b = latest_date_in_db_bound [OF l]
    show ?thesis
    proof (cases "L < today")
      case True
      from assms(2) update_after_latest [OF l assms(1) True, of env]
      have "update_loop env [L + 1..today] st = (Inr (), st1)" by simp
      from update_loop_success [OF this]
      have c: "map col_pubdate (rows (db st1))
                 = map col_pubdate (rows (db st)) @ map (\<lambda>d. PyStr (isoformat d)) [L + 1..today]"
        by auto
      have "isoformat L \<le> isoformat today"
        using isoformat_less_iff(1) [OF conjunct1 [OF b] assms(1)] True by (simp add: le_less)
      with b have "\<forall>w\<in>set (map col_pubdate (rows (db st))).
          sql_key w \<le> sql_key (PyStr (isoformat today))"
        by (meson order_trans sql_key_PyStr_le)
      from latest_date_in_db_after_run [OF c _ _ assms(1) this] True b
      have "latest_date_in_db (db st1) = Inr (Some today)"
        by (simp add: valid_date_def)
      with assms(1) show ?thesis
        by (simp add: valid_date_def)
    next
      case False
      with update_nothing_to_do(1) [OF l, of today env] assms(2) have s: "st1 = st"
        by simp
      have "L < MAXORDINAL"
        using assms(2) l by (auto simp: update_def date_add_def valid_date_def split: if_splits)
      with l s False show ?thesis by simp
    qed
  qed
qed

text \<open>
  Claim C3.  After a run that returned, a second run for the same day finds a latest date
  that is today or later: its range is empty, it makes no request and writes no row, and
  the state after it is the state after the first run.  The second run does not look at
  the origin at all, so this holds whether or not the origin has changed.  (On the last
  day of the calendar the second run raises OverflowError when it asks for the day after;
  the state is unchanged then too.)
\<close>

theorem second_run_changes_nothing:
  assumes "valid_date today" and "update env today st = (Inr (), st1)"
  shows "snd (update env' today st1) = st1
       \<and> db (snd (update env' today (snd (update env today st)))) = db (snd (update env today st))
       \<and> (\<exists>L. latest_date_in_db (db st1) = Inr (Some L) \<and> today \<le> L
              \<and> daterange (L + 1) today = [])
       \<and> (today < MAXORDINAL \<longrightarrow> update env' today st1 = (Inr (), st1))"
proof -
  from latest_date_in_db_after_update [OF assms] obtain L where
    L: "latest_date_in_db (db st1) = Inr (Some L)" "today \<le> L"
      "L = MAXORDINAL \<longrightarrow> today = MAXORDINAL" "L < MAXORDINAL + 1"
    by blast
  have s: "snd (update env' today st1) = st1"
    using L(1,2) by (rule update_nothing_to_do(1))
  have "today < MAXORDINAL \<Longrightarrow> update env' today st1 = (Inr (), st1)"
    using update_nothing_to_do(2) [OF L(1,2), of env'] L(3,4) by auto
  moreover have "daterange (L + 1) today = []"
    using L(2) by (simp add: daterange_upto)
  ultimately show ?thesis
    using s L(1,2) assms(2) by auto
qed

theorem second_run_changes_nothing_witness:
  "valid_date 738960
   \<and> update sample_env 738960 new_state = (Inr (), snd (update sample_env 738960 new_state))
   \<and> (738960::int) < MAXORDINAL
   \<and> rows (db (snd (update sample_env 738960 new_state))) \<noteq> []
   \<and> update sample_env 738960 (snd (update sample_env 738960 new_state))
       = (Inr (), snd (update sample_env 738960 new_state))"
proof -
  have h1: "valid_date 738960"
    by (simp add: valid_date_def MAXORDINAL_def)
  have l: "latest_date_in_db (db new_state) = Inr None"
    by (simp add: latest_date_in_db_None new_state_def empty_db_def)
  have u: "update sample_env 738960 new_state = update_loop sample_env [738951..738960] new_state"
    using update_empty_table [OF l h1, of sample_env] by simp
  have "fst (update_loop sample_env [738951..738960] new_state) = Inr ()"
    by (intro conjunct1 [OF sample_loop]) (simp_all add: march_2024 new_state_def empty_db_def)
  with u have h2: "update sample_env 738960 new_state
       = (Inr (), snd (update sample_env 738960 new_state))"
    by (simp add: prod_eq_iff)
  have h3: "(738960::int) < MAXORDINAL"
    by (simp add: MAXORDINAL_def)
  note t = second_run_changes_nothing [OF h1 h2, of sample_env]
  from t obtain L where "latest_date_in_db (db (snd (update sample_env 738960 new_state)))
      = Inr (Some L)"
    by blast
  then have n: "rows (db (snd (update sample_env 738960 new_state))) \<noteq> []"
    using latest_date_in_db_None [of "db (snd (update sample_env 738960 new_state))"] by auto
  from t h3 have "update sample_env 738960 (snd (update sample_env 738960 new_state))
       = (Inr (), snd (update sample_env 738960 new_state))"
    by blast
  with h1 h2 h3 n show ?thesis by blast
qed

end
